theory Spec2Isabelle
  imports Main "HOL-Library.Word" "HOL-Library.Sublist"
begin

unbundle bit_operations_syntax

section \<open>LogicalExpr.h: polynomials over the Boolean ring\<close>

text \<open>
  The header under \<^verbatim>\<open>llvm/include/llvm/Analysis/LogicalExpr.h\<close> holds two revisions of
  the class. \<^verbatim>\<open>ComplexLogicCombine.cpp\<close> refers to \<^verbatim>\<open>LogicalExpr::ExprZero\<close>, which only
  the first revision declares, so the first revision is the one embedded here.

  \<^verbatim>\<open>ExprAddChain\<close> is a \<^verbatim>\<open>SmallDenseSet<uint64_t, 8>\<close>. It is modelled by the list of its
  elements in iteration order; a set never holds an element twice, so every chain the
  code can hold is a \<open>distinct\<close> list. Inserting appends, erasing removes.
\<close>

type_synonym ExprAddChain = "64 word list"

record LogicalExpr =
  AddChain :: ExprAddChain
  LeafMask :: "64 word"

definition ExprAllOne :: "64 word" where
  "ExprAllOne = 0x8000000000000000"

definition ExprZero :: "64 word" where
  "ExprZero = 0x4000000000000000"

text \<open>\<^verbatim>\<open>LeafMask = 0; for (auto Mask : AddChain) LeafMask |= Mask;\<close>\<close>

definition updateLeafMask :: "ExprAddChain \<Rightarrow> LogicalExpr" where
  "updateLeafMask c = \<lparr>AddChain = c, LeafMask = foldl (\<lambda>acc Mask. acc OR Mask) 0 c\<rparr>"

text \<open>The constructor \<^verbatim>\<open>LogicalExpr(uint64_t Mask)\<close>.\<close>

definition LogicalExpr_of_mask :: "64 word \<Rightarrow> LogicalExpr" where
  "LogicalExpr_of_mask Mask = \<lparr>AddChain = [Mask], LeafMask = Mask\<rparr>"

text \<open>\<^verbatim>\<open>unsigned size() const { return AddChain.size(); }\<close>\<close>

definition size_expr :: "LogicalExpr \<Rightarrow> nat" where
  "size_expr e = length (AddChain e)"

text \<open>
  The idiom \<^verbatim>\<open>if (!Chain.insert(Mask).second) Chain.erase(Mask);\<close> of both operators:
  the mask is inserted when absent and erased when present.
\<close>

definition insert_or_erase :: "64 word \<Rightarrow> ExprAddChain \<Rightarrow> ExprAddChain" where
  "insert_or_erase Mask c = (if Mask \<in> set c then removeAll Mask c else c @ [Mask])"

text \<open>
  The body of the inner loop of \<^verbatim>\<open>operator*=\<close> after the two zero tests: the new mask
  \<^verbatim>\<open>LHSMask | RHSMask\<close>, with the all-ones bit cleared when other bits are set.
\<close>

definition NewMask :: "64 word \<Rightarrow> 64 word \<Rightarrow> 64 word" where
  "NewMask LHSMask RHSMask =
     (let m = LHSMask OR RHSMask
      in if m \<noteq> ExprAllOne \<and> (m AND ExprAllOne) \<noteq> 0 then m AND NOT ExprAllOne else m)"

text \<open>\<^verbatim>\<open>operator*=\<close>: the two nested loops over the receiver's and the argument's chain.\<close>

definition times_assign :: "LogicalExpr \<Rightarrow> LogicalExpr \<Rightarrow> LogicalExpr" where
  "times_assign this RHS =
     updateLeafMask
       (foldl (\<lambda>NewChain LHSMask.
                 if (LHSMask AND ExprZero) \<noteq> 0 then NewChain
                 else foldl (\<lambda>NewChain RHSMask.
                               if (RHSMask AND ExprZero) \<noteq> 0 then NewChain
                               else insert_or_erase (NewMask LHSMask RHSMask) NewChain)
                        NewChain (AddChain RHS))
          [] (AddChain this))"

text \<open>\<^verbatim>\<open>operator+=\<close>: every mask of the argument is toggled in the receiver's chain.\<close>

definition plus_assign :: "LogicalExpr \<Rightarrow> LogicalExpr \<Rightarrow> LogicalExpr" where
  "plus_assign this RHS =
     updateLeafMask
       (foldl (\<lambda>Chain RHSMask. insert_or_erase RHSMask Chain) (AddChain this) (AddChain RHS))"

text \<open>
  The free operators. \<^verbatim>\<open>operator*\<close> and \<^verbatim>\<open>operator+\<close> take their left operand by value,
  so the receiver of the assignment is a copy and never aliases the right operand.
\<close>

definition op_times :: "LogicalExpr \<Rightarrow> LogicalExpr \<Rightarrow> LogicalExpr" where
  "op_times a b = times_assign a b"

definition op_plus :: "LogicalExpr \<Rightarrow> LogicalExpr \<Rightarrow> LogicalExpr" where
  "op_plus a b = plus_assign a b"

definition op_and :: "LogicalExpr \<Rightarrow> LogicalExpr \<Rightarrow> LogicalExpr" where
  "op_and a b = op_times a b"

definition op_xor :: "LogicalExpr \<Rightarrow> LogicalExpr \<Rightarrow> LogicalExpr" where
  "op_xor a b = op_plus a b"

definition op_or :: "LogicalExpr \<Rightarrow> LogicalExpr \<Rightarrow> LogicalExpr" where
  "op_or a b = op_plus (op_plus (op_times a b) a) b"

definition op_not :: "LogicalExpr \<Rightarrow> LogicalExpr" where
  "op_not a = op_plus a (LogicalExpr_of_mask ExprAllOne)"

section \<open>The host IR, as far as the simplifier looks at it\<close>

text \<open>
  Modelled from the spec: the classes \<^verbatim>\<open>Value\<close>, \<^verbatim>\<open>ConstantInt\<close>, \<^verbatim>\<open>BinaryOperator\<close> and
  \<^verbatim>\<open>Constant\<close> of the host IR are not among the sources at hand. The spec asks of the host
  only to tell a binary \<^verbatim>\<open>And\<close>, \<^verbatim>\<open>Or\<close>, \<^verbatim>\<open>Xor\<close> with its two operands, the integer
  constant zero and the integer constant all-ones from every other value, and to make the
  zero and the all-ones constant of a type.

  A \<^verbatim>\<open>Value *\<close> is an address; two values are the same value exactly when their
  addresses are equal. The IR is a store that tells, for every address, what kind of value
  lives there. Only three kinds matter to the simplifier: an integer constant
  (\<^verbatim>\<open>dyn_cast<ConstantInt>\<close>, with its bit width and its unsigned value), a binary operator
  (\<^verbatim>\<open>dyn_cast<BinaryOperator>\<close>, with its opcode and two operands), and anything else.
  \<^verbatim>\<open>Constant::getNullValue\<close> and \<^verbatim>\<open>Constant::getAllOnesValue\<close> hand out the address of the
  uniqued constant of a type.
\<close>

type_synonym Value = nat
type_synonym Type = nat

datatype BinaryOps = And | Or | Xor | OtherBinaryOp

datatype ValueKind =
    ConstantInt nat nat
  | BinaryOperator BinaryOps Value Value
  | OtherValue

record IR =
  kind :: "Value \<Rightarrow> ValueKind"
  getType :: "Value \<Rightarrow> Type"
  getNullValue :: "Type \<Rightarrow> Value"
  getAllOnesValue :: "Type \<Rightarrow> Value"

text \<open>\<^verbatim>\<open>ConstantInt::isZero\<close> and \<^verbatim>\<open>ConstantInt::isAllOnesValue\<close> on a constant of width
  \<open>w\<close> and unsigned value \<open>x\<close>.\<close>

definition isZero :: "nat \<Rightarrow> nat \<Rightarrow> bool" where
  "isZero w x = (x = 0)"

definition isAllOnesValue :: "nat \<Rightarrow> nat \<Rightarrow> bool" where
  "isAllOnesValue w x = (x = 2 ^ w - 1)"

section \<open>ComplexLogicCombine: the helper\<close>

text \<open>The two command-line options, both \<^verbatim>\<open>cl::opt<unsigned>\<close>.\<close>

record Config =
  MaxLogicOpLeafsToScan :: "32 word"
  MaxDepthLogicOpsToScan :: "32 word"

definition default_config :: Config where
  "default_config = \<lparr>MaxLogicOpLeafsToScan = 8, MaxDepthLogicOpsToScan = 8\<rparr>"

text \<open>A \<^verbatim>\<open>LogicalOpNode\<close> binds a value to its expression (the back pointer to the helper
  is left out).\<close>

record LogicalOpNode =
  Val :: Value
  Expr :: LogicalExpr

text \<open>
  The three members of \<^verbatim>\<open>LogicalOpsHelper\<close>: the node cache (a \<^verbatim>\<open>SmallDenseMap\<close> from values
  to nodes), the leaf set (a \<^verbatim>\<open>SmallPtrSet\<close>) and the leaf table (a \<^verbatim>\<open>SmallVector\<close>).
\<close>

record LogicalOpsHelper =
  LogicalOpNodes :: "Value \<rightharpoonup> LogicalOpNode"
  LeafSet :: "Value set"
  LeafValues :: "Value list"

text \<open>The constructor \<^verbatim>\<open>LogicalOpsHelper() {}\<close>: all three containers start empty.\<close>

definition new_helper :: LogicalOpsHelper where
  "new_helper = \<lparr>LogicalOpNodes = Map.empty, LeafSet = {}, LeafValues = []\<rparr>"

text \<open>\<^verbatim>\<open>clear()\<close>, called by the destructor only.\<close>

definition clear :: "LogicalOpsHelper \<Rightarrow> LogicalOpsHelper" where
  "clear h = h\<lparr>LogicalOpNodes := Map.empty, LeafSet := {}, LeafValues := []\<rparr>"

text \<open>
  \<^verbatim>\<open>visitLeafNode\<close>. The result is the new node (or \<open>None\<close> for \<^verbatim>\<open>nullptr\<close>) and the helper
  after the call. \<^verbatim>\<open>LeafSet.insert(Val).second\<close> is evaluated only when the mask is not a
  sentinel, and the value is appended to the table only when the insertion was new.
\<close>

definition visitLeafNode ::
  "Config \<Rightarrow> IR \<Rightarrow> Value \<Rightarrow> 32 word \<Rightarrow> LogicalOpsHelper \<Rightarrow> LogicalOpNode option \<times> LogicalOpsHelper"
where
  "visitLeafNode cfg ir v Depth h =
     (if Depth = 0 \<or> (of_nat (card (LeafSet h)) :: 32 word) > MaxLogicOpLeafsToScan cfg
      then (None, h)
      else
        let ExprVal0 = (push_bit (card (LeafSet h)) 1 :: 64 word);
            ExprVal = (case kind ir v of
                         ConstantInt w x \<Rightarrow>
                           if isZero w x then ExprZero
                           else if isAllOnesValue w x then ExprAllOne
                           else ExprVal0
                       | _ \<Rightarrow> ExprVal0);
            h1 = (if ExprVal \<noteq> ExprAllOne \<and> ExprVal \<noteq> ExprZero
                  then (if v \<notin> LeafSet h
                        then h\<lparr>LeafSet := insert v (LeafSet h), LeafValues := LeafValues h @ [v]\<rparr>
                        else h)
                  else h);
            Node = \<lparr>Val = v, Expr = LogicalExpr_of_mask ExprVal\<rparr>
        in (Some Node, h1\<lparr>LogicalOpNodes := (LogicalOpNodes h1)(v \<mapsto> Node)\<rparr>))"

text \<open>One step of the walk brings the depth closer to the bound, in arithmetic modulo \<open>2 ^ 32\<close>.\<close>

lemma depth_distance_decreases:
  fixes Depth MaxDepth :: "32 word"
  assumes "Depth \<noteq> MaxDepth"
  shows "unat (MaxDepth - (Depth + 1)) < unat (MaxDepth - Depth)"
proof -
  have nz: "MaxDepth - Depth \<noteq> 0" using assms by simp
  have e: "MaxDepth - (Depth + 1) = (MaxDepth - Depth) - 1" by simp
  have "unat ((MaxDepth - Depth) - 1) = unat (MaxDepth - Depth) - 1"
    by (rule unat_minus_one [OF nz])
  moreover have "unat (MaxDepth - Depth) \<noteq> 0"
    using nz by (simp add: unat_eq_zero)
  ultimately have "unat ((MaxDepth - Depth) - 1) < unat (MaxDepth - Depth)" by arith
  then show ?thesis by (simp only: e)
qed

text \<open>
  \<^verbatim>\<open>getLogicalOpNode\<close> and \<^verbatim>\<open>visitBinOp\<close> call each other. \<^verbatim>\<open>Depth\<close> is an \<^verbatim>\<open>unsigned\<close>;
  every call from \<^verbatim>\<open>visitBinOp\<close> passes \<^verbatim>\<open>Depth + 1\<close>, and \<^verbatim>\<open>getLogicalOpNode\<close> returns at
  once when the depth equals the bound. The distance from the depth up to the bound
  (modulo \<open>2 ^ 32\<close>) therefore shrinks with every call, which is why the recursion ends
  on every IR, cyclic ones included. \<^verbatim>\<open>visitBinOp\<close> takes a \<^verbatim>\<open>BinaryOperator *\<close>; its last
  case, for a value that is no binary operator, is never reached from \<^verbatim>\<open>getLogicalOpNode\<close>.
\<close>

function getLogicalOpNode ::
  "Config \<Rightarrow> IR \<Rightarrow> Value \<Rightarrow> 32 word \<Rightarrow> LogicalOpsHelper \<Rightarrow> LogicalOpNode option \<times> LogicalOpsHelper"
and visitBinOp ::
  "Config \<Rightarrow> IR \<Rightarrow> Value \<Rightarrow> 32 word \<Rightarrow> LogicalOpsHelper \<Rightarrow> LogicalOpNode option \<times> LogicalOpsHelper"
where
  "getLogicalOpNode cfg ir v Depth h =
     (if Depth = MaxDepthLogicOpsToScan cfg then (None, h)
      else if LogicalOpNodes h v = None then
        (case (case kind ir v of
                 BinaryOperator opc op0 op1 \<Rightarrow> visitBinOp cfg ir v Depth h
               | _ \<Rightarrow> visitLeafNode cfg ir v Depth h) of
           (None, h') \<Rightarrow> (None, h')
         | (Some Node, h') \<Rightarrow> (LogicalOpNodes h' v, h'))
      else (LogicalOpNodes h v, h))"
| "visitBinOp cfg ir BO Depth h =
     (case kind ir BO of
        BinaryOperator opc op0 op1 \<Rightarrow>
          if opc \<noteq> And \<and> opc \<noteq> Or \<and> opc \<noteq> Xor then visitLeafNode cfg ir BO Depth h
          else
            (case getLogicalOpNode cfg ir op0 (Depth + 1) h of
               (None, h1) \<Rightarrow> (None, h1)
             | (Some LHS, h1) \<Rightarrow>
                 (case getLogicalOpNode cfg ir op1 (Depth + 1) h1 of
                    (None, h2) \<Rightarrow> (None, h2)
                  | (Some RHS, h2) \<Rightarrow>
                      let Node = \<lparr>Val = BO, Expr =
                                   (if opc = And then op_and (Expr LHS) (Expr RHS)
                                    else if opc = Or then op_or (Expr LHS) (Expr RHS)
                                    else op_xor (Expr LHS) (Expr RHS))\<rparr>
                      in (Some Node, h2\<lparr>LogicalOpNodes := (LogicalOpNodes h2)(BO \<mapsto> Node)\<rparr>)))
      | _ \<Rightarrow> (None, h))"
  by pat_completeness auto

termination
  apply (relation "measure (\<lambda>x. case x of
            Inl (cfg, ir, v, Depth, h) \<Rightarrow> 2 * unat (MaxDepthLogicOpsToScan cfg - Depth)
          | Inr (cfg, ir, v, Depth, h) \<Rightarrow> 2 * unat (MaxDepthLogicOpsToScan cfg - (Depth + 1)) + 1)")
      apply simp
     apply (simp add: depth_distance_decreases)
  using depth_distance_decreases apply fastforce
   apply simp
  apply simp
  done

declare getLogicalOpNode.simps [simp del]
declare visitBinOp.simps [simp del]

text \<open>
  Modelled from the spec: \<^verbatim>\<open>llvm::popcount\<close>, \<^verbatim>\<open>llvm::countl_zero\<close> and \<^verbatim>\<open>llvm::Log2_64\<close>
  come from LLVM's support headers, which are not part of the sources at hand. The spec
  reads them as "exactly one bit set" and "the leaf at \<open>log2(mask)\<close>": the number of set
  bits, the number of zero bits above the highest set bit, and \<^verbatim>\<open>63 - countl_zero\<close>
  computed in \<^verbatim>\<open>unsigned\<close>.
\<close>

definition popcount :: "64 word \<Rightarrow> nat" where
  "popcount w = length (filter (bit w) [0..<64])"

definition countl_zero :: "64 word \<Rightarrow> nat" where
  "countl_zero w = length (takeWhile (\<lambda>i. \<not> bit w i) (rev [0..<64]))"

definition Log2_64 :: "64 word \<Rightarrow> nat" where
  "Log2_64 w = unat ((63 :: 32 word) - of_nat (countl_zero w))"

text \<open>
  What the C++ leaves to an assertion or to undefined behaviour is an error value here:
  the \<^verbatim>\<open>assert\<close> at the head of \<^verbatim>\<open>simplify\<close>, and an index into \<^verbatim>\<open>LeafValues\<close> beyond its
  size.
\<close>

datatype error = AssertionFailed | IndexOutOfRange

definition logicalOpToValue :: "IR \<Rightarrow> LogicalOpsHelper \<Rightarrow> LogicalOpNode \<Rightarrow> error + Value option" where
  "logicalOpToValue ir h Node =
     (if size_expr (Expr Node) = 0
      then Inr (Some (getNullValue ir (getType ir (Val Node))))
      else if size_expr (Expr Node) = 1
      then
        (let ExprMask = hd (AddChain (Expr Node))
         in if ExprMask = ExprZero
            then Inr (Some (getNullValue ir (getType ir (Val Node))))
            else if ExprMask = ExprAllOne
            then Inr (Some (getAllOnesValue ir (getType ir (Val Node))))
            else if popcount ExprMask = 1
            then (if Log2_64 ExprMask < length (LeafValues h)
                  then Inr (Some (LeafValues h ! Log2_64 ExprMask))
                  else Inl IndexOutOfRange)
            else Inr None)
      else Inr None)"

text \<open>
  \<^verbatim>\<open>simplify\<close>. The statistic \<^verbatim>\<open>NumComplexLogicalOpsSimplified\<close> is a global counter (the
  \<^verbatim>\<open>STATISTIC\<close> macro is not among the sources at hand; the counter is taken as 64 bits
  wide); it is passed in and out next to the helper. \<open>Inr None\<close> is the \<^verbatim>\<open>nullptr\<close> result,
  "no change".
\<close>

definition simplify ::
  "Config \<Rightarrow> IR \<Rightarrow> Value \<Rightarrow> LogicalOpsHelper \<times> 64 word
     \<Rightarrow> (error + Value option) \<times> LogicalOpsHelper \<times> 64 word"
where
  "simplify cfg ir Root s =
     (case s of (h, NumComplexLogicalOpsSimplified) \<Rightarrow>
        if \<not> MaxLogicOpLeafsToScan cfg \<le> 62
        then (Inl AssertionFailed, h, NumComplexLogicalOpsSimplified)
        else
          (case getLogicalOpNode cfg ir Root 0 h of
             (None, h') \<Rightarrow> (Inr None, h', NumComplexLogicalOpsSimplified)
           | (Some RootNode, h') \<Rightarrow>
               (case logicalOpToValue ir h' RootNode of
                  Inl e \<Rightarrow> (Inl e, h', NumComplexLogicalOpsSimplified)
                | Inr NewRoot \<Rightarrow>
                    if NewRoot = Some Root
                    then (Inr None, h', NumComplexLogicalOpsSimplified)
                    else if NewRoot \<noteq> None
                    then (Inr NewRoot, h', NumComplexLogicalOpsSimplified + 1)
                    else (Inr NewRoot, h', NumComplexLogicalOpsSimplified))))"

section \<open>Concrete expressions\<close>

text \<open>
  Scenario S6: \<open>a = 1\<close>, \<open>b = 2\<close>, \<open>c = 3\<close> are opaque, \<open>4\<close> is the all-ones constant of
  \<^verbatim>\<open>i8\<close>, and \<open>11\<close> is \<^verbatim>\<open>((a & b) | (a ^ c)) ^ (((b & c) ^ -1) & a)\<close>.
\<close>

definition s6_ir :: IR where
  "s6_ir = \<lparr>kind = (\<lambda>v. OtherValue)
              (4 := ConstantInt 8 255,
               5 := BinaryOperator And 1 2,
               6 := BinaryOperator Xor 1 3,
               7 := BinaryOperator Or 5 6,
               8 := BinaryOperator And 2 3,
               9 := BinaryOperator Xor 8 4,
               10 := BinaryOperator And 9 1,
               11 := BinaryOperator Xor 7 10,
               20 := ConstantInt 8 0),
            getType = (\<lambda>v. 0),
            getNullValue = (\<lambda>t. 20),
            getAllOnesValue = (\<lambda>t. 4)\<rparr>"

text \<open>
  A chain of eight \<^verbatim>\<open>xor\<close>s: \<open>0\<close> is opaque and \<open>k\<close> is \<^verbatim>\<open>xor (k-1), (k-1)\<close> for
  \<open>k = 1, \<dots>, 8\<close>; \<open>100\<close> and \<open>101\<close> are the zero and the all-ones constant.
\<close>

definition chain_ir :: IR where
  "chain_ir = \<lparr>kind = (\<lambda>v. if 1 \<le> v \<and> v \<le> 8 then BinaryOperator Xor (v - 1) (v - 1)
                          else if v = 100 then ConstantInt 8 0
                          else if v = 101 then ConstantInt 8 255
                          else OtherValue),
               getType = (\<lambda>v. 0),
               getNullValue = (\<lambda>t. 100),
               getAllOnesValue = (\<lambda>t. 101)\<rparr>"

text \<open>
  Nine opaque values \<open>1, \<dots>, 9\<close>, their conjunction \<open>17\<close>, and \<open>18\<close>, the \<^verbatim>\<open>xor\<close> of the
  conjunction with itself.
\<close>

definition nine_leaves_ir :: IR where
  "nine_leaves_ir = \<lparr>kind = (\<lambda>v. OtherValue)
              (10 := BinaryOperator And 1 2,
               11 := BinaryOperator And 3 4,
               12 := BinaryOperator And 5 6,
               13 := BinaryOperator And 7 8,
               14 := BinaryOperator And 10 11,
               15 := BinaryOperator And 12 13,
               16 := BinaryOperator And 14 15,
               17 := BinaryOperator And 16 9,
               18 := BinaryOperator Xor 17 17,
               100 := ConstantInt 8 0,
               101 := ConstantInt 8 255),
            getType = (\<lambda>v. 0),
            getNullValue = (\<lambda>t. 100),
            getAllOnesValue = (\<lambda>t. 101)\<rparr>"

text \<open>
  The largest leaf bound the assertion of \<^verbatim>\<open>simplify\<close> admits, with a depth bound of 100,
  and a left-deep chain of \<^verbatim>\<open>and\<close>s over the 63 opaque values \<open>0, 2, \<dots>, 124\<close>: the value
  \<open>2 * k + 1\<close> is the \<^verbatim>\<open>and\<close> of the chain over the leaves up to \<open>2 * (k - 1)\<close> with the
  leaf \<open>2 * k\<close>, for \<open>k = 1, \<dots>, 62\<close>; \<open>1\<close> and \<open>127\<close> are the zero and the all-ones
  constant. \<open>and_chain_node k\<close> is the value of the conjunction of the leaves
  \<open>0, 2, \<dots>, 2 * k\<close>.
\<close>

definition config_62_deep :: Config where
  "config_62_deep = \<lparr>MaxLogicOpLeafsToScan = 62, MaxDepthLogicOpsToScan = 100\<rparr>"

definition and_chain_ir :: IR where
  "and_chain_ir =
     \<lparr>kind = (\<lambda>v. if v = 1 then ConstantInt 8 0
                 else if v = 127 then ConstantInt 8 255
                 else if odd v \<and> v \<le> 125
                 then BinaryOperator And (if v = 3 then 0 else v - 2) (v - 1)
                 else OtherValue),
      getType = (\<lambda>v. 0),
      getNullValue = (\<lambda>t. 1),
      getAllOnesValue = (\<lambda>t. 127)\<rparr>"

definition and_chain_node :: "nat \<Rightarrow> Value" where
  "and_chain_node k = (if k = 0 then 0 else 2 * k + 1)"

section \<open>Auxiliary notions for the statements\<close>

text \<open>
  The masks that \<^verbatim>\<open>operator*=\<close> toggles, in loop order: one product \<open>NewMask L R\<close> for
  every pair of a receiver mask and an argument mask that both pass the zero test.
\<close>

definition mask_products :: "ExprAddChain \<Rightarrow> ExprAddChain \<Rightarrow> 64 word list" where
  "mask_products ls rs =
     concat (map (\<lambda>L. if (L AND ExprZero) \<noteq> 0 then []
                       else map (NewMask L) (filter (\<lambda>R. (R AND ExprZero) = 0) rs)) ls)"

text \<open>
  A mask in the form the multiplication leaves behind: the zero bit is clear, and the
  all-ones bit is set only in the all-ones sentinel itself.
\<close>

definition canonical_mask :: "64 word \<Rightarrow> bool" where
  "canonical_mask m \<longleftrightarrow> (m AND ExprZero) = 0 \<and> (m = ExprAllOne \<or> (m AND ExprAllOne) = 0)"

text \<open>
  A mask of a helper that holds \<open>n\<close> leaves: one of the two sentinels, or a mask over the
  leaf bits \<open>0, \<dots>, n - 1\<close> only.
\<close>

definition leaf_mask_below :: "nat \<Rightarrow> 64 word \<Rightarrow> bool" where
  "leaf_mask_below n m \<longleftrightarrow> m = ExprZero \<or> m = ExprAllOne \<or> take_bit n m = m"

text \<open>
  The helper \<open>h'\<close> holds everything \<open>h\<close> holds: the leaf table of \<open>h\<close> is an initial
  segment of the leaf table of \<open>h'\<close>, and the leaf set and the cached values only grow.
\<close>

definition helper_grows :: "LogicalOpsHelper \<Rightarrow> LogicalOpsHelper \<Rightarrow> bool" where
  "helper_grows h h' \<longleftrightarrow>
     prefix (LeafValues h) (LeafValues h') \<and> LeafSet h \<subseteq> LeafSet h'
     \<and> dom (LogicalOpNodes h) \<subseteq> dom (LogicalOpNodes h')"

text \<open>
  The values \<^verbatim>\<open>visitBinOp\<close> decomposes: binary operators with opcode \<^verbatim>\<open>And\<close>, \<^verbatim>\<open>Or\<close> or
  \<^verbatim>\<open>Xor\<close>.
\<close>

definition is_logic_op :: "ValueKind \<Rightarrow> bool" where
  "is_logic_op k =
     (case k of BinaryOperator opc a b \<Rightarrow> opc = And \<or> opc = Or \<or> opc = Xor | _ \<Rightarrow> False)"

text \<open>
  The opaque leaves: every value that is neither decomposed nor one of the two constants
  with a sentinel mask.
\<close>

definition opaque_leaf :: "IR \<Rightarrow> Value \<Rightarrow> bool" where
  "opaque_leaf ir v =
     (case kind ir v of
        ConstantInt w x \<Rightarrow> \<not> isZero w x \<and> \<not> isAllOnesValue w x
      | BinaryOperator opc a b \<Rightarrow> opc \<noteq> And \<and> opc \<noteq> Or \<and> opc \<noteq> Xor
      | OtherValue \<Rightarrow> True)"

text \<open>
  \<open>occurs_in ir v x\<close>: the value \<open>x\<close> occurs inside the expression rooted at \<open>v\<close>, that is,
  \<open>x\<close> is reached from \<open>v\<close> through operands of \<^verbatim>\<open>And\<close>, \<^verbatim>\<open>Or\<close> and \<^verbatim>\<open>Xor\<close> operators.
\<close>

inductive occurs_in :: "IR \<Rightarrow> Value \<Rightarrow> Value \<Rightarrow> bool" for ir :: IR where
  here: "occurs_in ir v v"
| lhs: "kind ir v = BinaryOperator opc a b \<Longrightarrow> opc = And \<or> opc = Or \<or> opc = Xor
         \<Longrightarrow> occurs_in ir a x \<Longrightarrow> occurs_in ir v x"
| rhs: "kind ir v = BinaryOperator opc a b \<Longrightarrow> opc = And \<or> opc = Or \<or> opc = Xor
         \<Longrightarrow> occurs_in ir b x \<Longrightarrow> occurs_in ir v x"

text \<open>
  An expression fits the value \<open>v\<close> and the leaf table \<open>lv\<close>: its chain has no repeated
  mask, every mask is a sentinel or lies over the bits of the table, and every leaf bit of a
  mask names a table entry that occurs inside \<open>v\<close>.
\<close>

definition expr_ok :: "IR \<Rightarrow> Value list \<Rightarrow> Value \<Rightarrow> LogicalExpr \<Rightarrow> bool" where
  "expr_ok ir lv v e \<longleftrightarrow>
     distinct (AddChain e) \<and>
     (\<forall>m \<in> set (AddChain e).
        leaf_mask_below (length lv) m \<and> (\<forall>i < 62. bit m i \<longrightarrow> occurs_in ir v (lv ! i)))"

text \<open>
  A node cached for \<open>v\<close> carries \<open>v\<close> and an expression that fits.
\<close>

definition node_ok :: "IR \<Rightarrow> Value list \<Rightarrow> Value \<Rightarrow> LogicalOpNode \<Rightarrow> bool" where
  "node_ok ir lv v n \<longleftrightarrow> Val n = v \<and> expr_ok ir lv v (Expr n)"

text \<open>
  A node made by \<^verbatim>\<open>visitLeafNode\<close> for \<open>v\<close>: a singleton of a sentinel, or of the bit
  \<open>i\<close> whose table entry is \<open>v\<close>.
\<close>

definition leaf_node_ok :: "Value list \<Rightarrow> Value \<Rightarrow> LogicalOpNode \<Rightarrow> bool" where
  "leaf_node_ok lv v n \<longleftrightarrow>
     (\<exists>m. Expr n = LogicalExpr_of_mask m \<and>
        (m = ExprZero \<or> m = ExprAllOne \<or> (\<exists>i < length lv. m = 2 ^ i \<and> lv ! i = v)))"

text \<open>
  The consistency of a helper. The leaf set and the leaf table hold the same values,
  the table without repetition and with at most 62 entries; the \<open>i\<close>-th entry is an opaque
  leaf whose cached node is the singleton \<open>{1 << i}\<close>; every cached node fits its value; and
  every cached node of a value that is not decomposed was made by \<^verbatim>\<open>visitLeafNode\<close>.
\<close>

definition helper_inv :: "IR \<Rightarrow> LogicalOpsHelper \<Rightarrow> bool" where
  "helper_inv ir h \<longleftrightarrow>
     LeafSet h = set (LeafValues h) \<and> distinct (LeafValues h) \<and> length (LeafValues h) \<le> 62 \<and>
     (\<forall>i < length (LeafValues h).
        opaque_leaf ir (LeafValues h ! i) \<and>
        LogicalOpNodes h (LeafValues h ! i)
          = Some \<lparr>Val = LeafValues h ! i, Expr = LogicalExpr_of_mask (2 ^ i)\<rparr>) \<and>
     (\<forall>v n. LogicalOpNodes h v = Some n \<longrightarrow>
        node_ok ir (LeafValues h) v n \<and>
        (\<not> is_logic_op (kind ir v) \<longrightarrow> leaf_node_ok (LeafValues h) v n))"

text \<open>The helper after the walk of scenario S6 from a new helper, and the node of its root.\<close>

definition s6_helper :: LogicalOpsHelper where
  "s6_helper = snd (getLogicalOpNode default_config s6_ir 11 0 new_helper)"

definition s6_root_node :: LogicalOpNode where
  "s6_root_node = \<lparr>Val = 11, Expr = \<lparr>AddChain = [4], LeafMask = 4\<rparr>\<rparr>"

text \<open>
  Two calls of \<^verbatim>\<open>simplify\<close> on one helper, over the conjunctions of \<^verbatim>\<open>nine_leaves_ir\<close>:
  the helper and the counter after the first call, on the conjunction \<open>10\<close> of the leaves
  \<open>1\<close> and \<open>2\<close>, and after the second call, on the conjunction \<open>14\<close> of \<open>10\<close> with the
  conjunction of the leaves \<open>3\<close> and \<open>4\<close>.
\<close>

definition after_first_call :: "LogicalOpsHelper \<times> 64 word" where
  "after_first_call = snd (simplify default_config nine_leaves_ir 10 (new_helper, 0))"

definition after_second_call :: "LogicalOpsHelper \<times> 64 word" where
  "after_second_call = snd (simplify default_config nine_leaves_ir 14 after_first_call)"

section \<open>The chain operations on sets of masks\<close>

lemma insert_or_erase_distinct:
  "distinct c \<Longrightarrow> distinct (insert_or_erase m c)"
  by (simp add: insert_or_erase_def distinct_removeAll)

lemma insert_or_erase_set:
  "set (insert_or_erase m c) = (if m \<in> set c then set c - {m} else insert m (set c))"
  by (simp add: insert_or_erase_def)

lemma insert_or_erase_mem:
  "x \<in> set (insert_or_erase m c) \<longleftrightarrow> (x \<in> set c) \<noteq> (x = m)"
  by (auto simp: insert_or_erase_set)

text \<open>Toggling a list of masks one after the other: a mask stays or appears exactly when
  it was present and toggled an even number of times, or absent and toggled an odd number
  of times.\<close>

lemma toggle_all_distinct:
  "distinct c \<Longrightarrow> distinct (foldl (\<lambda>Chain m. insert_or_erase m Chain) c ms)"
  by (induction ms arbitrary: c) (simp_all add: insert_or_erase_distinct)

lemma toggle_all_mem:
  "x \<in> set (foldl (\<lambda>Chain m. insert_or_erase m Chain) c ms)
     \<longleftrightarrow> (x \<in> set c) \<noteq> odd (count_list ms x)"
  by (induction ms arbitrary: c) (auto simp: insert_or_erase_mem)

lemma count_list_distinct:
  "distinct ms \<Longrightarrow> count_list ms x = (if x \<in> set ms then 1 else 0)"
  by (induction ms) auto

section \<open>Addition\<close>

text \<open>
  C6. For every polynomial \<open>p\<close> (a chain without repeated masks, as every set is),
  \<open>p + p\<close> is the empty chain, the polynomial that denotes the constant 0.
\<close>

theorem plus_self_is_zero:
  "distinct (AddChain p) \<Longrightarrow> AddChain (op_plus p p) = [] \<and> size_expr (op_plus p p) = 0"
proof -
  assume d: "distinct (AddChain p)"
  define r where "r = foldl (\<lambda>Chain m. insert_or_erase m Chain) (AddChain p) (AddChain p)"
  have "x \<notin> set r" for x
    unfolding r_def using d by (simp add: toggle_all_mem count_list_distinct)
  then have "r = []" by (cases r) auto
  moreover have "AddChain (op_plus p p) = r"
    by (simp add: r_def op_plus_def plus_assign_def updateLeafMask_def)
  ultimately show ?thesis
    by (simp add: size_expr_def)
qed

theorem plus_self_is_zero_witness:
  "distinct (AddChain (updateLeafMask [3, 5, ExprAllOne]))
   \<and> AddChain (op_plus (updateLeafMask [3, 5, ExprAllOne]) (updateLeafMask [3, 5, ExprAllOne])) = []
   \<and> size_expr (op_plus (updateLeafMask [3, 5, ExprAllOne]) (updateLeafMask [3, 5, ExprAllOne])) = 0"
proof -
  have d: "distinct (AddChain (updateLeafMask [3, 5, ExprAllOne]))"
    by (simp add: updateLeafMask_def ExprAllOne_def)
  show ?thesis using d plus_self_is_zero [OF d] by simp
qed

section \<open>Multiplication\<close>

lemma inner_loop_toggles:
  "foldl (\<lambda>NewChain RHSMask.
            if (RHSMask AND ExprZero) \<noteq> 0 then NewChain
            else insert_or_erase (NewMask L RHSMask) NewChain) c rs
   = foldl (\<lambda>Chain m. insert_or_erase m Chain) c
       (map (NewMask L) (filter (\<lambda>R. (R AND ExprZero) = 0) rs))"
  by (induction rs arbitrary: c) simp_all

lemma outer_loop_toggles_aux:
  "foldl (\<lambda>NewChain LHSMask.
            if (LHSMask AND ExprZero) \<noteq> 0 then NewChain
            else foldl (\<lambda>Chain m. insert_or_erase m Chain) NewChain
                   (map (NewMask LHSMask) (filter (\<lambda>R. (R AND ExprZero) = 0) rs))) c ls
   = foldl (\<lambda>Chain m. insert_or_erase m Chain) c (mask_products ls rs)"
  by (induction ls arbitrary: c) (simp_all add: mask_products_def)

lemma outer_loop_toggles:
  "foldl (\<lambda>NewChain LHSMask.
            if (LHSMask AND ExprZero) \<noteq> 0 then NewChain
            else foldl (\<lambda>NewChain RHSMask.
                          if (RHSMask AND ExprZero) \<noteq> 0 then NewChain
                          else insert_or_erase (NewMask LHSMask RHSMask) NewChain)
                   NewChain rs) c ls
   = foldl (\<lambda>Chain m. insert_or_erase m Chain) c (mask_products ls rs)"
  by (simp add: inner_loop_toggles outer_loop_toggles_aux cong: if_cong)

lemma times_chain:
  "AddChain (op_times a b)
   = foldl (\<lambda>Chain m. insert_or_erase m Chain) [] (mask_products (AddChain a) (AddChain b))"
  by (simp add: op_times_def times_assign_def updateLeafMask_def outer_loop_toggles)

lemma times_distinct: "distinct (AddChain (op_times a b))"
  by (simp add: times_chain toggle_all_distinct)

lemma times_mem:
  "x \<in> set (AddChain (op_times a b))
     \<longleftrightarrow> odd (count_list (mask_products (AddChain a) (AddChain b)) x)"
  by (simp add: times_chain toggle_all_mem)

lemma count_list_pos_mem: "0 < count_list xs x \<Longrightarrow> x \<in> set xs"
  by (induction xs) (auto split: if_splits)

lemma times_mem_product:
  assumes "x \<in> set (AddChain (op_times a b))"
  shows "\<exists>L \<in> set (AddChain a). \<exists>R \<in> set (AddChain b).
           (L AND ExprZero) = 0 \<and> (R AND ExprZero) = 0 \<and> x = NewMask L R"
proof -
  have "odd (count_list (mask_products (AddChain a) (AddChain b)) x)"
    using assms by (simp add: times_mem)
  then have "0 < count_list (mask_products (AddChain a) (AddChain b)) x"
    by (cases "count_list (mask_products (AddChain a) (AddChain b)) x") auto
  then have "x \<in> set (mask_products (AddChain a) (AddChain b))"
    by (rule count_list_pos_mem)
  then show ?thesis
    by (auto simp: mask_products_def split: if_splits)
qed

lemma plus_chain:
  "AddChain (op_plus a b) = foldl (\<lambda>Chain m. insert_or_erase m Chain) (AddChain a) (AddChain b)"
  by (simp add: op_plus_def plus_assign_def updateLeafMask_def)

lemma plus_distinct: "distinct (AddChain a) \<Longrightarrow> distinct (AddChain (op_plus a b))"
  by (simp add: plus_chain toggle_all_distinct)

lemma plus_mem_either:
  "x \<in> set (AddChain (op_plus a b)) \<Longrightarrow> x \<in> set (AddChain a) \<or> x \<in> set (AddChain b)"
proof -
  assume "x \<in> set (AddChain (op_plus a b))"
  then have "(x \<in> set (AddChain a)) \<noteq> odd (count_list (AddChain b) x)"
    by (simp add: plus_chain toggle_all_mem)
  then show ?thesis
    by (cases "x \<in> set (AddChain a)") (auto dest: count_list_pos_mem intro: count_list_pos_mem
          simp: odd_pos)
qed

text \<open>Squares: the off-diagonal products come in equal pairs and cancel.\<close>

lemma count_list_concat_map_Cons:
  "count_list (concat (map (\<lambda>a. f a y # map (f a) ys) xs)) m
   = count_list (map (\<lambda>a. f a y) xs) m + count_list (concat (map (\<lambda>a. map (f a) ys) xs)) m"
  by (induction xs) auto

lemma square_parity:
  assumes sym: "\<And>a b. f a b = f b a"
  shows "even (count_list (concat (map (\<lambda>a. map (f a) xs) xs)) m
               + count_list (map (\<lambda>a. f a a) xs) m)"
proof (induction xs)
  case Nil
  then show ?case by simp
next
  case (Cons x xs)
  have s: "(\<lambda>a. f a x) = f x" using sym by auto
  have "count_list (concat (map (\<lambda>a. map (f a) (x # xs)) (x # xs))) m
        = count_list (map (\<lambda>a. f a x) (x # xs)) m
          + (count_list (map (f x) xs) m
             + count_list (concat (map (\<lambda>a. map (f a) xs) xs)) m)"
    by (simp add: count_list_concat_map_Cons)
  then show ?case using Cons.IH by (auto simp: s)
qed

lemma NewMask_commute: "NewMask a b = NewMask b a"
  by (simp add: NewMask_def or.commute)

lemma NewMask_canonical_self: "canonical_mask m \<Longrightarrow> NewMask m m = m"
  by (auto simp: NewMask_def canonical_mask_def)

lemma mask_products_canonical:
  assumes "\<forall>m \<in> set ls. (m AND ExprZero) = 0" "\<forall>m \<in> set rs. (m AND ExprZero) = 0"
  shows "mask_products ls rs = concat (map (\<lambda>L. map (NewMask L) rs) ls)"
proof -
  have "filter (\<lambda>R. (R AND ExprZero) = 0) rs = rs" using assms(2) by (simp add: filter_id_conv)
  then show ?thesis using assms(1)
    by (auto simp: mask_products_def intro!: arg_cong [where f = concat])
qed

text \<open>
  C5, as the code has it. For every polynomial \<open>p\<close> whose masks are canonical (no zero
  bit, the all-ones bit only as the all-ones sentinel), \<open>p * p\<close> has the same set of
  monomials as \<open>p\<close>.
\<close>

theorem times_self_idempotent:
  assumes d: "distinct (AddChain p)" and c: "\<forall>m \<in> set (AddChain p). canonical_mask m"
  shows "set (AddChain (op_times p p)) = set (AddChain p)"
proof (rule set_eqI)
  fix x
  let ?xs = "AddChain p"
  have nz: "\<forall>m \<in> set ?xs. (m AND ExprZero) = 0" using c by (simp add: canonical_mask_def)
  have diag: "map (\<lambda>a. NewMask a a) ?xs = ?xs"
    using c by (simp add: map_idI NewMask_canonical_self)
  have "even (count_list (concat (map (\<lambda>a. map (NewMask a) ?xs) ?xs)) x
              + count_list (map (\<lambda>a. NewMask a a) ?xs) x)"
    by (rule square_parity) (rule NewMask_commute)
  then have "odd (count_list (mask_products ?xs ?xs) x) \<longleftrightarrow> odd (count_list ?xs x)"
    by (simp add: mask_products_canonical [OF nz nz] diag)
  then show "x \<in> set (AddChain (op_times p p)) \<longleftrightarrow> x \<in> set ?xs"
    using d by (simp add: times_mem count_list_distinct)
qed

theorem times_self_idempotent_witness:
  "distinct (AddChain (updateLeafMask [3, 5, ExprAllOne]))
   \<and> canonical_mask 3 \<and> canonical_mask 5 \<and> canonical_mask ExprAllOne
   \<and> set (AddChain (op_times (updateLeafMask [3, 5, ExprAllOne]) (updateLeafMask [3, 5, ExprAllOne])))
       = set (AddChain (updateLeafMask [3, 5, ExprAllOne]))"
proof -
  have d: "distinct (AddChain (updateLeafMask [3, 5, ExprAllOne]))"
    by (simp add: updateLeafMask_def ExprAllOne_def)
  have c: "\<forall>m \<in> set (AddChain (updateLeafMask [3, 5, ExprAllOne])). canonical_mask m"
    by (simp add: updateLeafMask_def ExprAllOne_def ExprZero_def canonical_mask_def)
  show ?thesis using d c times_self_idempotent [OF d c] by (simp add: updateLeafMask_def)
qed

text \<open>
  C5 as stated fails on the polynomial of the constant zero leaf: the square of the
  singleton \<open>{ExprZero}\<close> is the empty chain, a different set of monomials.
\<close>

theorem times_self_zero_sentinel:
  "AddChain (op_times (LogicalExpr_of_mask ExprZero) (LogicalExpr_of_mask ExprZero)) = []
   \<and> set (AddChain (op_times (LogicalExpr_of_mask ExprZero) (LogicalExpr_of_mask ExprZero)))
       \<noteq> set (AddChain (LogicalExpr_of_mask ExprZero))"
  by code_simp

section \<open>The leaf bound and the lifetime of the caches, on concrete inputs\<close>

text \<open>
  C7 as stated fails: \<^verbatim>\<open>simplify\<close> never calls \<^verbatim>\<open>clear\<close>. On a new helper the chain of
  eight \<^verbatim>\<open>xor\<close>s is too deep and \<^verbatim>\<open>simplify\<close> reports no change; on a helper that has
  simplified the innermost \<^verbatim>\<open>xor\<close> before, the leaf table still holds the leaf, the walk
  stops at the cached node, and the same call returns the zero constant.
\<close>

theorem second_call_sees_first_call_caches:
  "fst (simplify default_config chain_ir 8 (new_helper, 0)) = Inr None
   \<and> LeafValues (fst (snd (simplify default_config chain_ir 1 (new_helper, 0)))) = [0]
   \<and> fst (simplify default_config chain_ir 8 (snd (simplify default_config chain_ir 1 (new_helper, 0))))
       = Inr (Some 100)"
  by code_simp

text \<open>
  C3, the leaf bound. With the default bound of 8, an expression over nine distinct opaque
  leaves is walked to the end and simplified: the test in \<^verbatim>\<open>visitLeafNode\<close> is
  \<^verbatim>\<open>LeafSet.size() > MaxLogicOpLeafsToScan\<close>, taken before the leaf is added.
\<close>

theorem nine_leaves_are_simplified:
  "length (LeafValues (fst (snd (simplify default_config nine_leaves_ir 18 (new_helper, 0))))) = 9
   \<and> fst (simplify default_config nine_leaves_ir 18 (new_helper, 0)) = Inr (Some 100)
   \<and> snd (snd (simplify default_config nine_leaves_ir 18 (new_helper, 0))) = 1"
  by code_simp

section \<open>Masks, bit by bit\<close>

lemma bit_exp_word64: "bit (2 ^ n :: 64 word) i \<longleftrightarrow> i = n \<and> n < 64"
  by (auto simp: bit_exp_iff)

lemma bit_one_hot: "bit (push_bit n 1 :: 64 word) i \<longleftrightarrow> i = n \<and> n < 64"
  by (simp add: bit_exp_word64)

lemma bit_ExprAllOne: "bit ExprAllOne i \<longleftrightarrow> i = 63"
proof -
  have e: "ExprAllOne = 2 ^ 63" by (simp add: ExprAllOne_def)
  show ?thesis by (simp only: e bit_exp_word64) simp
qed

lemma bit_ExprZero: "bit ExprZero i \<longleftrightarrow> i = 62"
proof -
  have e: "ExprZero = 2 ^ 62" by (simp add: ExprZero_def)
  show ?thesis by (simp only: e bit_exp_word64) simp
qed

lemma take_bit_self_iff:
  fixes m :: "64 word"
  shows "take_bit n m = m \<longleftrightarrow> (\<forall>i. bit m i \<longrightarrow> i < n)"
proof
  assume e: "take_bit n m = m"
  show "\<forall>i. bit m i \<longrightarrow> i < n"
  proof (intro allI impI)
    fix i assume "bit m i"
    then have "bit (take_bit n m) i" by (simp add: e)
    then show "i < n" by (simp add: bit_take_bit_iff)
  qed
next
  assume "\<forall>i. bit m i \<longrightarrow> i < n"
  then show "take_bit n m = m"
    by (intro bit_word_eqI) (auto simp: bit_take_bit_iff)
qed

lemma and_ExprZero_iff: "(m AND ExprZero) = 0 \<longleftrightarrow> \<not> bit m 62"
proof
  assume e: "(m AND ExprZero) = 0"
  have "\<not> bit (m AND ExprZero) 62" by (simp add: e)
  then show "\<not> bit m 62" by (simp add: bit_and_iff bit_ExprZero)
next
  assume "\<not> bit m 62"
  then show "(m AND ExprZero) = 0"
    by (intro bit_word_eqI) (auto simp: bit_and_iff bit_ExprZero)
qed

lemma and_ExprAllOne_iff: "(m AND ExprAllOne) = 0 \<longleftrightarrow> \<not> bit m 63"
proof
  assume e: "(m AND ExprAllOne) = 0"
  have "\<not> bit (m AND ExprAllOne) 63" by (simp add: e)
  then show "\<not> bit m 63" by (simp add: bit_and_iff bit_ExprAllOne)
next
  assume "\<not> bit m 63"
  then show "(m AND ExprAllOne) = 0"
    by (intro bit_word_eqI) (auto simp: bit_and_iff bit_ExprAllOne)
qed

lemma bit_NewMask:
  "bit (NewMask L R) i \<Longrightarrow> bit L i \<or> bit R i"
  by (auto simp: NewMask_def Let_def bit_and_iff bit_or_iff split: if_splits)

lemma NewMask_below:
  assumes L: "leaf_mask_below n L" and R: "leaf_mask_below n R"
    and Lz: "(L AND ExprZero) = 0" and Rz: "(R AND ExprZero) = 0" and n: "n \<le> 62"
  shows "leaf_mask_below n (NewMask L R)"
proof -
  have L': "L = ExprAllOne \<or> (\<forall>i. bit L i \<longrightarrow> i < n)"
    using L Lz by (auto simp: leaf_mask_below_def take_bit_self_iff and_ExprZero_iff bit_ExprZero)
  have R': "R = ExprAllOne \<or> (\<forall>i. bit R i \<longrightarrow> i < n)"
    using R Rz by (auto simp: leaf_mask_below_def take_bit_self_iff and_ExprZero_iff bit_ExprZero)
  show ?thesis
  proof (cases "L OR R = ExprAllOne")
    case True
    then show ?thesis by (simp add: NewMask_def leaf_mask_below_def)
  next
    case False
    have "bit (NewMask L R) i \<longrightarrow> i < n" for i
    proof
      assume b: "bit (NewMask L R) i"
      then have i63: "i \<noteq> 63"
        using False by (auto simp: NewMask_def Let_def bit_and_iff bit_not_iff bit_ExprAllOne
            and_ExprAllOne_iff split: if_splits)
      have "bit L i \<or> bit R i" using b by (rule bit_NewMask)
      then show "i < n" using L' R' i63 by (auto simp: bit_ExprAllOne)
    qed
    then show ?thesis by (simp add: leaf_mask_below_def take_bit_self_iff)
  qed
qed

lemma leaf_mask_below_mono: "leaf_mask_below n m \<Longrightarrow> n \<le> k \<Longrightarrow> leaf_mask_below k m"
  by (auto simp: leaf_mask_below_def take_bit_self_iff)

lemma one_hot_below: "leaf_mask_below (Suc n) (2 ^ n)"
  by (auto simp: leaf_mask_below_def take_bit_self_iff bit_exp_word64)

lemma leaf_mask_below_bit:
  "leaf_mask_below n m \<Longrightarrow> bit m i \<Longrightarrow> i < 62 \<Longrightarrow> i < n"
  by (auto simp: leaf_mask_below_def take_bit_self_iff bit_ExprZero bit_ExprAllOne)

section \<open>The walk only adds to the helper\<close>

lemma helper_grows_refl: "helper_grows h h"
  by (simp add: helper_grows_def)

lemma helper_grows_trans: "helper_grows a b \<Longrightarrow> helper_grows b c \<Longrightarrow> helper_grows a c"
  unfolding helper_grows_def by (meson prefix_order.trans subset_trans)

lemma helper_grows_cache:
  "helper_grows h h' \<Longrightarrow> helper_grows h (h'\<lparr>LogicalOpNodes := (LogicalOpNodes h')(v \<mapsto> n)\<rparr>)"
  by (auto simp: helper_grows_def)

lemma visitLeafNode_grows:
  "visitLeafNode cfg ir v d h = (r, h') \<Longrightarrow> helper_grows h h'"
  by (auto simp: visitLeafNode_def helper_grows_def Let_def split: if_splits)

lemma walk_grows:
  "(\<forall>r h'. getLogicalOpNode cfg ir v d h = (r, h') \<longrightarrow> helper_grows h h')"
  "(\<forall>r h'. visitBinOp cfg ir v d h = (r, h') \<longrightarrow> helper_grows h h')"
proof (induction cfg ir v d h and cfg ir v d h rule: getLogicalOpNode_visitBinOp.induct)
  case (1 cfg ir v Depth h)
  show ?case
  proof (intro allI impI)
    fix r h'
    assume run: "getLogicalOpNode cfg ir v Depth h = (r, h')"
    show "helper_grows h h'"
    proof (cases "Depth = MaxDepthLogicOpsToScan cfg \<or> LogicalOpNodes h v \<noteq> None")
      case True
      then have "h' = h" using run by (auto simp: getLogicalOpNode.simps split: if_splits)
      then show ?thesis by (simp add: helper_grows_refl)
    next
      case False
      then have d: "Depth \<noteq> MaxDepthLogicOpsToScan cfg" and c: "LogicalOpNodes h v = None" by auto
      show ?thesis
      proof (cases "kind ir v")
        case (BinaryOperator opc op0 op1)
        obtain r1 h1 where v: "visitBinOp cfg ir v Depth h = (r1, h1)" by (cases "visitBinOp cfg ir v Depth h")
        have "helper_grows h h1" using "1.IH" [OF d c BinaryOperator] v by blast
        moreover have "h' = h1" using run d c BinaryOperator v
          by (auto simp: getLogicalOpNode.simps split: option.splits)
        ultimately show ?thesis by simp
      next
        case (ConstantInt w x)
        obtain r1 h1 where v: "visitLeafNode cfg ir v Depth h = (r1, h1)" by (cases "visitLeafNode cfg ir v Depth h")
        have "h' = h1" using run d c ConstantInt v
          by (auto simp: getLogicalOpNode.simps split: option.splits)
        then show ?thesis using visitLeafNode_grows [OF v] by simp
      next
        case OtherValue
        obtain r1 h1 where v: "visitLeafNode cfg ir v Depth h = (r1, h1)" by (cases "visitLeafNode cfg ir v Depth h")
        have "h' = h1" using run d c OtherValue v
          by (auto simp: getLogicalOpNode.simps split: option.splits)
        then show ?thesis using visitLeafNode_grows [OF v] by simp
      qed
    qed
  qed
next
  case (2 cfg ir BO Depth h)
  show ?case
  proof (intro allI impI)
    fix r h'
    assume run: "visitBinOp cfg ir BO Depth h = (r, h')"
    show "helper_grows h h'"
    proof (cases "kind ir BO")
      case (BinaryOperator opc op0 op1)
      show ?thesis
      proof (cases "opc \<noteq> And \<and> opc \<noteq> Or \<and> opc \<noteq> Xor")
        case True
        then have "visitLeafNode cfg ir BO Depth h = (r, h')"
          using run BinaryOperator by (simp add: visitBinOp.simps)
        then show ?thesis by (rule visitLeafNode_grows)
      next
        case False
        obtain r1 h1 where g1: "getLogicalOpNode cfg ir op0 (Depth + 1) h = (r1, h1)"
          by (cases "getLogicalOpNode cfg ir op0 (Depth + 1) h")
        have gr1: "helper_grows h h1" using "2.IH"(1) [OF BinaryOperator False] g1 by blast
        show ?thesis
        proof (cases r1)
          case None
          then have "h' = h1" using run BinaryOperator False g1 by (simp add: visitBinOp.simps)
          then show ?thesis using gr1 by simp
        next
          case (Some LHS)
          obtain r2 h2 where g2: "getLogicalOpNode cfg ir op1 (Depth + 1) h1 = (r2, h2)"
            by (cases "getLogicalOpNode cfg ir op1 (Depth + 1) h1")
          have gr2: "helper_grows h1 h2"
            using "2.IH"(2) [OF BinaryOperator False g1 [symmetric] Some] g2 by blast
          show ?thesis
          proof (cases r2)
            case None
            then have "h' = h2" using run BinaryOperator False g1 Some g2
              by (simp add: visitBinOp.simps)
            then show ?thesis using gr1 gr2 helper_grows_trans by blast
          next
            case (Some RHS)
            then have "\<exists>n. h' = h2\<lparr>LogicalOpNodes := (LogicalOpNodes h2)(BO \<mapsto> n)\<rparr>"
              using run BinaryOperator False g1 \<open>r1 = Some LHS\<close> g2
              by (auto simp: visitBinOp.simps Let_def)
            then show ?thesis using gr1 gr2 helper_grows_trans helper_grows_cache by blast
          qed
        qed
      qed
    next
      case (ConstantInt w x)
      then have "h' = h" using run by (simp add: visitBinOp.simps)
      then show ?thesis by (simp add: helper_grows_refl)
    next
      case OtherValue
      then have "h' = h" using run by (simp add: visitBinOp.simps)
      then show ?thesis by (simp add: helper_grows_refl)
    qed
  qed
qed

section \<open>Expressions that fit a value and a leaf table\<close>

lemma opaque_leaf_not_logic: "opaque_leaf ir v \<Longrightarrow> \<not> is_logic_op (kind ir v)"
  by (auto simp: opaque_leaf_def is_logic_op_def split: ValueKind.splits)

lemma expr_ok_mono:
  assumes "expr_ok ir lv v e" "prefix lv lv'"
  shows "expr_ok ir lv' v e"
proof -
  obtain zs where lv': "lv' = lv @ zs" using assms(2) by (auto simp: prefix_def)
  show ?thesis
    unfolding expr_ok_def
  proof (intro conjI ballI allI impI)
    show "distinct (AddChain e)" using assms(1) by (simp add: expr_ok_def)
  next
    fix m assume m: "m \<in> set (AddChain e)"
    then have "leaf_mask_below (length lv) m" using assms(1) by (simp add: expr_ok_def)
    then show "leaf_mask_below (length lv') m"
      by (rule leaf_mask_below_mono) (simp add: lv')
  next
    fix m i assume m: "m \<in> set (AddChain e)" and i: "i < 62" and b: "bit m i"
    have below: "leaf_mask_below (length lv) m" using assms(1) m by (simp add: expr_ok_def)
    have "i < length lv" using below b i by (rule leaf_mask_below_bit)
    moreover have "occurs_in ir v (lv ! i)" using assms(1) m i b by (simp add: expr_ok_def)
    ultimately show "occurs_in ir v (lv' ! i)" by (simp add: lv' nth_append)
  qed
qed

lemma expr_ok_lift:
  assumes "expr_ok ir lv a e" "\<And>x. occurs_in ir a x \<Longrightarrow> occurs_in ir v x"
  shows "expr_ok ir lv v e"
  using assms unfolding expr_ok_def by blast

lemma expr_ok_plus:
  assumes a: "expr_ok ir lv v a" and b: "expr_ok ir lv v b"
  shows "expr_ok ir lv v (op_plus a b)"
proof -
  have d: "distinct (AddChain (op_plus a b))"
    using a by (simp add: expr_ok_def plus_distinct)
  have "leaf_mask_below (length lv) m \<and> (\<forall>i<62. bit m i \<longrightarrow> occurs_in ir v (lv ! i))"
    if "m \<in> set (AddChain (op_plus a b))" for m
  proof -
    have "m \<in> set (AddChain a) \<or> m \<in> set (AddChain b)" using that by (rule plus_mem_either)
    then show ?thesis using a b unfolding expr_ok_def by blast
  qed
  then show ?thesis using d unfolding expr_ok_def by blast
qed

lemma expr_ok_times:
  assumes a: "expr_ok ir lv v a" and b: "expr_ok ir lv v b" and n: "length lv \<le> 62"
  shows "expr_ok ir lv v (op_times a b)"
  unfolding expr_ok_def
proof (intro conjI ballI allI impI)
  show "distinct (AddChain (op_times a b))" by (rule times_distinct)
next
  fix m assume "m \<in> set (AddChain (op_times a b))"
  then obtain L R where L: "L \<in> set (AddChain a)" and R: "R \<in> set (AddChain b)"
    and Lz: "(L AND ExprZero) = 0" and Rz: "(R AND ExprZero) = 0" and m: "m = NewMask L R"
    using times_mem_product by blast
  have "leaf_mask_below (length lv) L" using a L by (simp add: expr_ok_def)
  moreover have "leaf_mask_below (length lv) R" using b R by (simp add: expr_ok_def)
  ultimately show "leaf_mask_below (length lv) m"
    unfolding m using Lz Rz n by (rule NewMask_below)
next
  fix m i assume "m \<in> set (AddChain (op_times a b))" and i: "i < 62" and bit: "bit m i"
  then obtain L R where L: "L \<in> set (AddChain a)" and R: "R \<in> set (AddChain b)"
    and m: "m = NewMask L R"
    using times_mem_product by blast
  have "bit L i \<or> bit R i" using bit unfolding m by (rule bit_NewMask)
  then show "occurs_in ir v (lv ! i)"
    using a b L R i unfolding expr_ok_def by blast
qed

lemma expr_ok_binop:
  assumes k: "kind ir BO = BinaryOperator opc a b" and o: "opc = And \<or> opc = Or \<or> opc = Xor"
    and L: "expr_ok ir lv a l" and R: "expr_ok ir lv b r" and n: "length lv \<le> 62"
  shows "expr_ok ir lv BO (if opc = And then op_and l r
                           else if opc = Or then op_or l r else op_xor l r)"
proof -
  have L': "expr_ok ir lv BO l"
    using L by (rule expr_ok_lift) (rule occurs_in.lhs [OF k o])
  have R': "expr_ok ir lv BO r"
    using R by (rule expr_ok_lift) (rule occurs_in.rhs [OF k o])
  have t: "expr_ok ir lv BO (op_times l r)" using L' R' n by (rule expr_ok_times)
  have p: "expr_ok ir lv BO (op_plus l r)" using L' R' by (rule expr_ok_plus)
  have "expr_ok ir lv BO (op_plus (op_plus (op_times l r) l) r)"
    by (intro expr_ok_plus t L' R')
  then show ?thesis using t p by (simp add: op_and_def op_or_def op_xor_def)
qed

section \<open>The consistency of the helper is kept by every update\<close>

lemma helper_inv_new: "helper_inv ir new_helper"
  by (simp add: helper_inv_def new_helper_def)

lemma helper_inv_leaf_cached:
  assumes "helper_inv ir h" "v \<in> set (LeafValues h)"
  shows "LogicalOpNodes h v \<noteq> None"
proof -
  obtain i where "i < length (LeafValues h)" "LeafValues h ! i = v"
    using assms(2) by (auto simp: in_set_conv_nth)
  then show ?thesis using assms(1) unfolding helper_inv_def by force
qed

lemma helper_inv_card:
  "helper_inv ir h \<Longrightarrow> card (LeafSet h) = length (LeafValues h)"
  by (simp add: helper_inv_def distinct_card)

lemma expr_ok_sentinel:
  "m = ExprZero \<or> m = ExprAllOne \<Longrightarrow> expr_ok ir lv v (LogicalExpr_of_mask m)"
  by (auto simp: expr_ok_def LogicalExpr_of_mask_def leaf_mask_below_def bit_ExprZero bit_ExprAllOne)

lemma expr_ok_one_hot:
  "n < length lv \<Longrightarrow> lv ! n = v \<Longrightarrow> expr_ok ir lv v (LogicalExpr_of_mask (2 ^ n))"
proof -
  assume n: "n < length lv" and v: "lv ! n = v"
  have "leaf_mask_below (length lv) (2 ^ n)"
    using one_hot_below [of n] n by (auto intro: leaf_mask_below_mono)
  then show ?thesis
    using v by (auto simp: expr_ok_def LogicalExpr_of_mask_def bit_exp_word64 intro: occurs_in.here)
qed

lemma inv_add_sentinel:
  assumes inv: "helper_inv ir h" and unc: "LogicalOpNodes h v = None"
    and m: "m = ExprZero \<or> m = ExprAllOne"
  shows "helper_inv ir
           (h\<lparr>LogicalOpNodes := (LogicalOpNodes h)(v \<mapsto> \<lparr>Val = v, Expr = LogicalExpr_of_mask m\<rparr>)\<rparr>)"
proof -
  have nv: "LeafValues h ! i \<noteq> v" if "i < length (LeafValues h)" for i
    using helper_inv_leaf_cached [OF inv] unc that by (metis nth_mem)
  have new: "node_ok ir (LeafValues h) v \<lparr>Val = v, Expr = LogicalExpr_of_mask m\<rparr>"
    using m by (simp add: node_ok_def expr_ok_sentinel)
  have newl: "leaf_node_ok (LeafValues h) v \<lparr>Val = v, Expr = LogicalExpr_of_mask m\<rparr>"
    using m by (auto simp: leaf_node_ok_def)
  show ?thesis
    using inv nv new newl unfolding helper_inv_def by auto
qed

lemma leaf_node_ok_mono:
  "leaf_node_ok lv v n \<Longrightarrow> leaf_node_ok (lv @ zs) v n"
  unfolding leaf_node_ok_def by (auto simp: nth_append)

lemma node_ok_mono:
  "node_ok ir lv v n \<Longrightarrow> prefix lv lv' \<Longrightarrow> node_ok ir lv' v n"
  by (auto simp: node_ok_def intro: expr_ok_mono)

lemma inv_add_leaf:
  assumes inv: "helper_inv ir h" and unc: "LogicalOpNodes h v = None"
    and leaf: "opaque_leaf ir v" and n: "length (LeafValues h) < 62"
  shows "helper_inv ir
           (h\<lparr>LeafSet := insert v (LeafSet h), LeafValues := LeafValues h @ [v],
              LogicalOpNodes := (LogicalOpNodes h)
                (v \<mapsto> \<lparr>Val = v, Expr = LogicalExpr_of_mask (2 ^ length (LeafValues h))\<rparr>)\<rparr>)"
    (is "helper_inv ir ?h'")
proof -
  let ?lv = "LeafValues h" and ?N = "length (LeafValues h)"
  let ?node = "\<lparr>Val = v, Expr = LogicalExpr_of_mask (2 ^ ?N)\<rparr>"
  have vn: "v \<notin> set ?lv" using helper_inv_leaf_cached [OF inv] unc by blast
  have nv: "?lv ! i \<noteq> v" if "i < ?N" for i using vn that by (metis nth_mem)
  have c1: "LeafSet ?h' = set (LeafValues ?h')" using inv by (simp add: helper_inv_def)
  have c2: "distinct (LeafValues ?h')" using inv vn by (simp add: helper_inv_def)
  have c3: "length (LeafValues ?h') \<le> 62" using n by simp
  have c4: "opaque_leaf ir (LeafValues ?h' ! i) \<and>
            LogicalOpNodes ?h' (LeafValues ?h' ! i)
              = Some \<lparr>Val = LeafValues ?h' ! i, Expr = LogicalExpr_of_mask (2 ^ i)\<rparr>"
    if "i < length (LeafValues ?h')" for i
  proof (cases "i < ?N")
    case True
    then show ?thesis using inv nv [OF True] unfolding helper_inv_def by (simp add: nth_append)
  next
    case False
    then have "i = ?N" using that by simp
    then show ?thesis using leaf by (simp add: nth_append)
  qed
  have c5: "node_ok ir (LeafValues ?h') w k \<and>
            (\<not> is_logic_op (kind ir w) \<longrightarrow> leaf_node_ok (LeafValues ?h') w k)"
    if "LogicalOpNodes ?h' w = Some k" for w k
  proof (cases "w = v")
    case True
    then have k: "k = ?node" using that by simp
    have "expr_ok ir (?lv @ [v]) v (LogicalExpr_of_mask (2 ^ ?N))"
      by (rule expr_ok_one_hot) simp_all
    moreover have "leaf_node_ok (?lv @ [v]) v ?node"
      unfolding leaf_node_ok_def by (auto intro!: exI [of _ "2 ^ ?N"] exI [of _ ?N])
    ultimately show ?thesis using True k by (simp add: node_ok_def)
  next
    case False
    then have old: "LogicalOpNodes h w = Some k" using that by simp
    then have "node_ok ir ?lv w k" and "\<not> is_logic_op (kind ir w) \<longrightarrow> leaf_node_ok ?lv w k"
      using inv unfolding helper_inv_def by blast+
    then show ?thesis
      by (auto intro: node_ok_mono leaf_node_ok_mono)
  qed
  show ?thesis
    unfolding helper_inv_def using c1 c2 c3 c4 c5 by blast
qed

lemma inv_add_binop:
  assumes inv: "helper_inv ir h" and logic: "is_logic_op (kind ir BO)"
    and ok: "node_ok ir (LeafValues h) BO n"
  shows "helper_inv ir (h\<lparr>LogicalOpNodes := (LogicalOpNodes h)(BO \<mapsto> n)\<rparr>)"
proof -
  have nv: "LeafValues h ! i \<noteq> BO" if "i < length (LeafValues h)" for i
    using inv that logic opaque_leaf_not_logic unfolding helper_inv_def by metis
  show ?thesis
    using inv nv ok logic unfolding helper_inv_def by auto
qed

lemma visitLeafNode_inv:
  assumes inv: "helper_inv ir h" and unc: "LogicalOpNodes h v = None"
    and nl: "\<not> is_logic_op (kind ir v)"
    and run: "visitLeafNode cfg ir v d h = (r, h')"
  shows "helper_inv ir h' \<and> (\<forall>n. r = Some n \<longrightarrow> LogicalOpNodes h' v = Some n)"
proof (cases "d = 0 \<or> (of_nat (card (LeafSet h)) :: 32 word) > MaxLogicOpLeafsToScan cfg")
  case True
  then have "r = None" "h' = h" using run by (auto simp: visitLeafNode_def)
  then show ?thesis using inv by simp
next
  case False
  define N where "N = length (LeafValues h)"
  have card: "card (LeafSet h) = N" using inv by (simp add: N_def helper_inv_card)
  define E where "E = (case kind ir v of
                         ConstantInt w x \<Rightarrow>
                           if isZero w x then ExprZero
                           else if isAllOnesValue w x then ExprAllOne
                           else (2 ^ N :: 64 word)
                       | _ \<Rightarrow> 2 ^ N)"
  define node where "node = \<lparr>Val = v, Expr = LogicalExpr_of_mask E\<rparr>"
  have "v \<notin> set (LeafValues h)"
    using helper_inv_leaf_cached [OF inv] unc by blast
  then have vn: "v \<notin> LeafSet h"
    using inv by (simp add: helper_inv_def)
  show ?thesis
  proof (cases "E = ExprAllOne \<or> E = ExprZero")
    case True
    have "r = Some node \<and> h' = h\<lparr>LogicalOpNodes := (LogicalOpNodes h)(v \<mapsto> node)\<rparr>"
      using run False True card
      by (auto simp: visitLeafNode_def Let_def E_def node_def split: ValueKind.splits if_splits)
    moreover have "helper_inv ir (h\<lparr>LogicalOpNodes := (LogicalOpNodes h)(v \<mapsto> node)\<rparr>)"
      unfolding node_def using inv unc True by (intro inv_add_sentinel) auto
    ultimately show ?thesis by simp
  next
    case nons: False
    have E: "E = 2 ^ N" and leaf: "opaque_leaf ir v"
      using nons nl
      by (auto simp: E_def opaque_leaf_def is_logic_op_def split: ValueKind.splits if_splits)
    have "N \<le> 62" using inv by (simp add: N_def helper_inv_def)
    moreover have "N \<noteq> 62" using nons E by (auto simp: ExprZero_def)
    ultimately have N: "N < 62" by simp
    have "r = Some node \<and>
          h' = h\<lparr>LeafSet := insert v (LeafSet h), LeafValues := LeafValues h @ [v],
                 LogicalOpNodes := (LogicalOpNodes h)(v \<mapsto> node)\<rparr>"
      using run False nons card vn
      by (auto simp: visitLeafNode_def Let_def E_def node_def split: ValueKind.splits if_splits)
    moreover have "helper_inv ir
           (h\<lparr>LeafSet := insert v (LeafSet h), LeafValues := LeafValues h @ [v],
              LogicalOpNodes := (LogicalOpNodes h)(v \<mapsto> node)\<rparr>)"
      unfolding node_def E N_def using inv unc leaf N [unfolded N_def] by (rule inv_add_leaf)
    ultimately show ?thesis by simp
  qed
qed

section \<open>The consistency of the helper is kept by the walk\<close>

lemma walk_inv:
  "(\<forall>r h'. helper_inv ir h \<longrightarrow> getLogicalOpNode cfg ir v d h = (r, h')
      \<longrightarrow> helper_inv ir h' \<and> (\<forall>n. r = Some n \<longrightarrow> LogicalOpNodes h' v = Some n))"
  "(\<forall>r h'. helper_inv ir h \<longrightarrow> LogicalOpNodes h v = None \<longrightarrow> visitBinOp cfg ir v d h = (r, h')
      \<longrightarrow> helper_inv ir h' \<and> (\<forall>n. r = Some n \<longrightarrow> LogicalOpNodes h' v = Some n))"
proof (induction cfg ir v d h and cfg ir v d h rule: getLogicalOpNode_visitBinOp.induct)
  case (1 cfg ir v Depth h)
  show ?case
  proof (intro allI impI)
    fix r h'
    assume inv: "helper_inv ir h" and run: "getLogicalOpNode cfg ir v Depth h = (r, h')"
    show "helper_inv ir h' \<and> (\<forall>n. r = Some n \<longrightarrow> LogicalOpNodes h' v = Some n)"
    proof (cases "Depth = MaxDepthLogicOpsToScan cfg")
      case True
      then have "r = None" "h' = h" using run by (auto simp: getLogicalOpNode.simps)
      then show ?thesis using inv by simp
    next
      case d: False
      show ?thesis
      proof (cases "LogicalOpNodes h v")
        case (Some k)
        then have "r = Some k" "h' = h" using run d by (auto simp: getLogicalOpNode.simps)
        then show ?thesis using inv Some by simp
      next
        case c: None
        show ?thesis
        proof (cases "kind ir v")
          case (BinaryOperator opc op0 op1)
          obtain r1 h1 where v: "visitBinOp cfg ir v Depth h = (r1, h1)"
            by (cases "visitBinOp cfg ir v Depth h")
          have ih: "helper_inv ir h1 \<and> (\<forall>n. r1 = Some n \<longrightarrow> LogicalOpNodes h1 v = Some n)"
            using "1.IH" [OF d c BinaryOperator] inv c v by blast
          have "h' = h1 \<and> (r = None \<or> r = LogicalOpNodes h1 v)" using run d c BinaryOperator v
            by (auto simp: getLogicalOpNode.simps split: option.splits)
          then show ?thesis using ih by auto
        next
          case (ConstantInt w x)
          obtain r1 h1 where v: "visitLeafNode cfg ir v Depth h = (r1, h1)"
            by (cases "visitLeafNode cfg ir v Depth h")
          have nl: "\<not> is_logic_op (kind ir v)" using ConstantInt by (simp add: is_logic_op_def)
          have ih: "helper_inv ir h1 \<and> (\<forall>n. r1 = Some n \<longrightarrow> LogicalOpNodes h1 v = Some n)"
            using inv c nl v by (rule visitLeafNode_inv)
          have "h' = h1 \<and> (r = None \<or> r = LogicalOpNodes h1 v)" using run d c ConstantInt v
            by (auto simp: getLogicalOpNode.simps split: option.splits)
          then show ?thesis using ih by auto
        next
          case OtherValue
          obtain r1 h1 where v: "visitLeafNode cfg ir v Depth h = (r1, h1)"
            by (cases "visitLeafNode cfg ir v Depth h")
          have nl: "\<not> is_logic_op (kind ir v)" using OtherValue by (simp add: is_logic_op_def)
          have ih: "helper_inv ir h1 \<and> (\<forall>n. r1 = Some n \<longrightarrow> LogicalOpNodes h1 v = Some n)"
            using inv c nl v by (rule visitLeafNode_inv)
          have "h' = h1 \<and> (r = None \<or> r = LogicalOpNodes h1 v)" using run d c OtherValue v
            by (auto simp: getLogicalOpNode.simps split: option.splits)
          then show ?thesis using ih by auto
        qed
      qed
    qed
  qed
next
  case (2 cfg ir BO Depth h)
  show ?case
  proof (intro allI impI)
    fix r h'
    assume inv: "helper_inv ir h" and unc: "LogicalOpNodes h BO = None"
      and run: "visitBinOp cfg ir BO Depth h = (r, h')"
    show "helper_inv ir h' \<and> (\<forall>n. r = Some n \<longrightarrow> LogicalOpNodes h' BO = Some n)"
    proof (cases "kind ir BO")
      case (BinaryOperator opc op0 op1)
      show ?thesis
      proof (cases "opc \<noteq> And \<and> opc \<noteq> Or \<and> opc \<noteq> Xor")
        case True
        then have v: "visitLeafNode cfg ir BO Depth h = (r, h')"
          using run BinaryOperator by (simp add: visitBinOp.simps)
        have nl: "\<not> is_logic_op (kind ir BO)"
          using BinaryOperator True by (simp add: is_logic_op_def)
        show ?thesis using inv unc nl v by (rule visitLeafNode_inv)
      next
        case False
        then have logic: "opc = And \<or> opc = Or \<or> opc = Xor" by blast
        have lop: "is_logic_op (kind ir BO)"
          using BinaryOperator logic by (simp add: is_logic_op_def)
        obtain r1 h1 where g1: "getLogicalOpNode cfg ir op0 (Depth + 1) h = (r1, h1)"
          by (cases "getLogicalOpNode cfg ir op0 (Depth + 1) h")
        have ih1: "helper_inv ir h1 \<and> (\<forall>n. r1 = Some n \<longrightarrow> LogicalOpNodes h1 op0 = Some n)"
          using "2.IH"(1) [OF BinaryOperator False] inv g1 by blast
        show ?thesis
        proof (cases r1)
          case None
          then have "r = None" "h' = h1" using run BinaryOperator False g1
            by (simp_all add: visitBinOp.simps)
          then show ?thesis using ih1 by simp
        next
          case (Some LHS)
          obtain r2 h2 where g2: "getLogicalOpNode cfg ir op1 (Depth + 1) h1 = (r2, h2)"
            by (cases "getLogicalOpNode cfg ir op1 (Depth + 1) h1")
          have ih2: "helper_inv ir h2 \<and> (\<forall>n. r2 = Some n \<longrightarrow> LogicalOpNodes h2 op1 = Some n)"
            using "2.IH"(2) [OF BinaryOperator False g1 [symmetric] Some] ih1 g2 by blast
          show ?thesis
          proof (cases r2)
            case None
            then have "r = None" "h' = h2" using run BinaryOperator False g1 Some g2
              by (simp_all add: visitBinOp.simps)
            then show ?thesis using ih2 by simp
          next
            case (Some RHS)
            define Node where "Node = \<lparr>Val = BO, Expr =
                 (if opc = And then op_and (Expr LHS) (Expr RHS)
                  else if opc = Or then op_or (Expr LHS) (Expr RHS)
                  else op_xor (Expr LHS) (Expr RHS))\<rparr>"
            have res: "r = Some Node"
                "h' = h2\<lparr>LogicalOpNodes := (LogicalOpNodes h2)(BO \<mapsto> Node)\<rparr>"
              using run BinaryOperator False g1 \<open>r1 = Some LHS\<close> g2 Some
              by (auto simp: visitBinOp.simps Let_def Node_def)
            have "node_ok ir (LeafValues h1) op0 LHS"
              using ih1 \<open>r1 = Some LHS\<close> unfolding helper_inv_def by blast
            moreover have "prefix (LeafValues h1) (LeafValues h2)"
              using walk_grows(1) g2 unfolding helper_grows_def by blast
            ultimately have L: "expr_ok ir (LeafValues h2) op0 (Expr LHS)"
              using node_ok_mono unfolding node_ok_def by blast
            have R: "expr_ok ir (LeafValues h2) op1 (Expr RHS)"
              using ih2 Some unfolding helper_inv_def node_ok_def by blast
            have n: "length (LeafValues h2) \<le> 62" using ih2 by (simp add: helper_inv_def)
            have "node_ok ir (LeafValues h2) BO Node"
              unfolding node_ok_def Node_def
              using expr_ok_binop [OF BinaryOperator logic L R n] by simp
            then have "helper_inv ir (h2\<lparr>LogicalOpNodes := (LogicalOpNodes h2)(BO \<mapsto> Node)\<rparr>)"
              using ih2 lop by (intro inv_add_binop) auto
            then show ?thesis using res by simp
          qed
        qed
      qed
    next
      case (ConstantInt w x)
      then have "r = None" "h' = h" using run by (simp_all add: visitBinOp.simps)
      then show ?thesis using inv by simp
    next
      case OtherValue
      then have "r = None" "h' = h" using run by (simp_all add: visitBinOp.simps)
      then show ?thesis using inv by simp
    qed
  qed
qed

lemma getLogicalOpNode_inv:
  assumes "helper_inv ir h" "getLogicalOpNode cfg ir v d h = (r, h')"
  shows "helper_inv ir h'" and "r = Some n \<Longrightarrow> LogicalOpNodes h' v = Some n"
  using walk_inv(1) assms by blast+

section \<open>Reconstruction\<close>

lemma takeWhile_rev_upt:
  assumes "i < N" "\<not> P i" "\<And>j. i < j \<Longrightarrow> j < N \<Longrightarrow> P j"
  shows "length (takeWhile P (rev [0..<N])) = N - Suc i"
proof -
  have "[0..<i + (N - i)] = [0..<i] @ [i..<i + (N - i)]"
    by (rule upt_add_eq_append) simp
  then have "[0..<N] = [0..<i] @ [i..<N]" using assms(1) by simp
  then have "[0..<N] = [0..<i] @ i # [Suc i..<N]" using assms(1) by (simp add: upt_conv_Cons)
  then have r: "rev [0..<N] = rev [Suc i..<N] @ i # rev [0..<i]" by simp
  have "takeWhile P (rev [Suc i..<N] @ i # rev [0..<i]) = rev [Suc i..<N] @ takeWhile P (i # rev [0..<i])"
    by (rule takeWhile_append2) (use assms(3) in auto)
  then show ?thesis using assms(2) by (simp add: r)
qed

lemma countl_zero_one_hot:
  assumes "i < 64"
  shows "countl_zero (2 ^ i) = 63 - i"
proof -
  define N :: nat where "N = 64"
  have "length (takeWhile (\<lambda>j. \<not> bit (2 ^ i :: 64 word) j) (rev [0..<N])) = N - Suc i"
    by (rule takeWhile_rev_upt) (use assms in \<open>auto simp: bit_exp_word64 N_def\<close>)
  then show ?thesis by (simp only: countl_zero_def N_def)
qed

lemma popcount_one_hot:
  assumes "popcount m = 1"
  shows "\<exists>i < 64. m = 2 ^ i"
proof -
  define N :: nat where "N = 64"
  have "length (filter (bit m) [0..<N]) = 1"
    using assms by (simp only: popcount_def N_def)
  then obtain i where f: "filter (bit m) [0..<N] = [i]"
    by (auto simp: length_Suc_conv)
  have "i \<in> set (filter (bit m) [0..<N])" by (simp only: f list.set_intros)
  then have i: "i < N" "bit m i" by auto
  have only: "j = i" if "bit m j" for j
  proof -
    have "j < N" using that bit_imp_le_length [of m j] by (simp add: N_def)
    then have "j \<in> set (filter (bit m) [0..<N])" using that by simp
    then show ?thesis by (simp only: f) simp
  qed
  have "bit m j \<longleftrightarrow> bit (2 ^ i :: 64 word) j" for j
  proof
    assume "bit m j"
    then have "j = i" by (rule only)
    then show "bit (2 ^ i :: 64 word) j" using i(1) by (simp add: bit_exp_word64 N_def)
  next
    assume "bit (2 ^ i :: 64 word) j"
    then have "j = i" by (simp add: bit_exp_word64)
    then show "bit m j" using i(2) by simp
  qed
  then have "m = 2 ^ i" by (intro bit_word_eqI)
  then show ?thesis using i by (auto simp: N_def)
qed

lemma Log2_64_one_hot:
  assumes "i < 64"
  shows "Log2_64 (2 ^ i) = i"
proof -
  have u: "unat (of_nat (63 - i) :: 32 word) = 63 - i"
    by (simp add: unat_of_nat)
  then have le: "(of_nat (63 - i) :: 32 word) \<le> 63"
    by (simp only: word_le_nat_alt) simp
  have "unat ((63 :: 32 word) - of_nat (63 - i)) = unat (63 :: 32 word) - unat (of_nat (63 - i) :: 32 word)"
    by (rule unat_sub [OF le])
  also have "\<dots> = 63 - (63 - i)" by (simp only: u) simp
  also have "\<dots> = i" using assms by simp
  finally show ?thesis by (simp only: Log2_64_def countl_zero_one_hot [OF assms])
qed

lemma one_hot_not_sentinel:
  assumes "i < 62"
  shows "(2 ^ i :: 64 word) \<noteq> ExprZero" and "(2 ^ i :: 64 word) \<noteq> ExprAllOne"
proof -
  have b: "bit (2 ^ i :: 64 word) i" using assms by (simp add: bit_exp_word64)
  show "(2 ^ i :: 64 word) \<noteq> ExprZero"
  proof
    assume "(2 ^ i :: 64 word) = ExprZero"
    then have "bit ExprZero i" using b by simp
    then show False using assms by (simp add: bit_ExprZero)
  qed
  show "(2 ^ i :: 64 word) \<noteq> ExprAllOne"
  proof
    assume "(2 ^ i :: 64 word) = ExprAllOne"
    then have "bit ExprAllOne i" using b by simp
    then show False using assms by (simp add: bit_ExprAllOne)
  qed
qed

text \<open>A one-hot mask of a node that fits a table of at most 62 leaves is a sentinel or
  names an entry of the table.\<close>

lemma one_hot_in_table:
  assumes below: "leaf_mask_below n m" and pc: "popcount m = 1"
    and ns: "m \<noteq> ExprZero" "m \<noteq> ExprAllOne"
  shows "Log2_64 m < n \<and> m = 2 ^ Log2_64 m"
proof -
  obtain i where i: "i < 64" "m = 2 ^ i" using popcount_one_hot [OF pc] by blast
  have l: "Log2_64 m = i" using i by (simp add: Log2_64_one_hot)
  have "take_bit n m = m" using below ns by (simp add: leaf_mask_below_def)
  moreover have "bit m i" using i by (simp add: bit_exp_word64)
  ultimately have "i < n" by (simp add: take_bit_self_iff)
  then show ?thesis using l i by simp
qed

lemma logicalOpToValue_cases:
  "logicalOpToValue ir h Node =
     (case AddChain (Expr Node) of
        [] \<Rightarrow> Inr (Some (getNullValue ir (getType ir (Val Node))))
      | [m] \<Rightarrow>
          if m = ExprZero then Inr (Some (getNullValue ir (getType ir (Val Node))))
          else if m = ExprAllOne then Inr (Some (getAllOnesValue ir (getType ir (Val Node))))
          else if popcount m = 1
          then (if Log2_64 m < length (LeafValues h)
                then Inr (Some (LeafValues h ! Log2_64 m)) else Inl IndexOutOfRange)
          else Inr None
      | _ \<Rightarrow> Inr None)"
  by (simp add: logicalOpToValue_def size_expr_def Let_def split: list.splits)

lemma built_root:
  assumes inv: "helper_inv ir h" and walk: "getLogicalOpNode cfg ir v d h = (Some n, h')"
  shows "helper_inv ir h'" and "LogicalOpNodes h' v = Some n" and "Val n = v"
    and "expr_ok ir (LeafValues h') v (Expr n)"
proof -
  show i: "helper_inv ir h'" using getLogicalOpNode_inv(1) [OF inv walk] .
  show c: "LogicalOpNodes h' v = Some n" using getLogicalOpNode_inv(2) [OF inv walk] by simp
  have "node_ok ir (LeafValues h') v n" using i c unfolding helper_inv_def by blast
  then show "Val n = v" and "expr_ok ir (LeafValues h') v (Expr n)"
    by (simp_all add: node_ok_def)
qed

lemma logicalOpToValue_built:
  assumes val: "Val Node = v" and ok: "expr_ok ir (LeafValues h) v (Expr Node)"
  shows "logicalOpToValue ir h Node =
     (case AddChain (Expr Node) of
        [] \<Rightarrow> Inr (Some (getNullValue ir (getType ir v)))
      | [m] \<Rightarrow>
          if m = ExprZero then Inr (Some (getNullValue ir (getType ir v)))
          else if m = ExprAllOne then Inr (Some (getAllOnesValue ir (getType ir v)))
          else if popcount m = 1 then Inr (Some (LeafValues h ! Log2_64 m))
          else Inr None
      | _ \<Rightarrow> Inr None)"
proof -
  have "Log2_64 m < length (LeafValues h)"
    if "AddChain (Expr Node) = [m]" "popcount m = 1" "m \<noteq> ExprZero" "m \<noteq> ExprAllOne" for m
  proof -
    have "leaf_mask_below (length (LeafValues h)) m"
      using ok that(1) by (simp add: expr_ok_def)
    then show ?thesis using that one_hot_in_table by blast
  qed
  then show ?thesis
    by (auto simp: logicalOpToValue_cases val split: list.splits)
qed

text \<open>
  C2. For every node in the cache of a consistent helper, \<^verbatim>\<open>logicalOpToValue\<close> returns the
  zero constant of the node's type when the chain is empty or the singleton of the zero
  sentinel, the all-ones constant when it is the singleton of the all-ones sentinel, the
  entry of the leaf table at \<open>Log2_64\<close> of the mask (an index inside the table) when it is
  the singleton of a non-sentinel mask with exactly one bit set, and \<^verbatim>\<open>nullptr\<close> in every
  other case.
\<close>

theorem reconstruction_of_built_node:
  assumes inv: "helper_inv ir h" and built: "LogicalOpNodes h v = Some Node"
  shows
    "(AddChain (Expr Node) = [] \<or> AddChain (Expr Node) = [ExprZero]
        \<longrightarrow> logicalOpToValue ir h Node = Inr (Some (getNullValue ir (getType ir (Val Node)))))
     \<and> (AddChain (Expr Node) = [ExprAllOne]
        \<longrightarrow> logicalOpToValue ir h Node = Inr (Some (getAllOnesValue ir (getType ir (Val Node)))))
     \<and> (\<forall>m. AddChain (Expr Node) = [m] \<and> popcount m = 1 \<and> m \<noteq> ExprZero \<and> m \<noteq> ExprAllOne
        \<longrightarrow> Log2_64 m < length (LeafValues h)
            \<and> logicalOpToValue ir h Node = Inr (Some (LeafValues h ! Log2_64 m)))
     \<and> (\<forall>m. AddChain (Expr Node) = [m] \<and> popcount m \<noteq> 1
        \<longrightarrow> logicalOpToValue ir h Node = Inr None)
     \<and> (2 \<le> size_expr (Expr Node) \<longrightarrow> logicalOpToValue ir h Node = Inr None)"
proof -
  have ok: "node_ok ir (LeafValues h) v Node"
    using inv built unfolding helper_inv_def by blast
  then have val: "Val Node = v" and e: "expr_ok ir (LeafValues h) v (Expr Node)"
    by (simp_all add: node_ok_def)
  note r = logicalOpToValue_built [OF val e]
  have pz: "popcount ExprZero = 1" by code_simp
  have pa: "popcount ExprAllOne = 1" by code_simp
  have c1: "AddChain (Expr Node) = [] \<or> AddChain (Expr Node) = [ExprZero]
        \<longrightarrow> logicalOpToValue ir h Node = Inr (Some (getNullValue ir (getType ir (Val Node))))"
    using r val by auto
  have c2: "AddChain (Expr Node) = [ExprAllOne]
        \<longrightarrow> logicalOpToValue ir h Node = Inr (Some (getAllOnesValue ir (getType ir (Val Node))))"
    using r val by (auto simp: ExprAllOne_def ExprZero_def)
  have c3: "\<forall>m. AddChain (Expr Node) = [m] \<and> popcount m = 1 \<and> m \<noteq> ExprZero \<and> m \<noteq> ExprAllOne
        \<longrightarrow> Log2_64 m < length (LeafValues h)
            \<and> logicalOpToValue ir h Node = Inr (Some (LeafValues h ! Log2_64 m))"
  proof (intro allI impI)
    fix m
    assume a: "AddChain (Expr Node) = [m] \<and> popcount m = 1 \<and> m \<noteq> ExprZero \<and> m \<noteq> ExprAllOne"
    then have "leaf_mask_below (length (LeafValues h)) m"
      using e by (simp add: expr_ok_def)
    then have "Log2_64 m < length (LeafValues h)" using a one_hot_in_table by blast
    then show "Log2_64 m < length (LeafValues h)
            \<and> logicalOpToValue ir h Node = Inr (Some (LeafValues h ! Log2_64 m))"
      using r a by simp
  qed
  have c4: "\<forall>m. AddChain (Expr Node) = [m] \<and> popcount m \<noteq> 1
        \<longrightarrow> logicalOpToValue ir h Node = Inr None"
    using r pz pa by auto
  have c5: "2 \<le> size_expr (Expr Node) \<longrightarrow> logicalOpToValue ir h Node = Inr None"
    using r by (auto simp: size_expr_def split: list.splits)
  show ?thesis using c1 c2 c3 c4 c5 by blast
qed

lemma s6_walk:
  "getLogicalOpNode default_config s6_ir 11 0 new_helper = (Some s6_root_node, s6_helper)"
proof -
  have "fst (getLogicalOpNode default_config s6_ir 11 0 new_helper) = Some s6_root_node"
    by code_simp
  then show ?thesis by (simp add: s6_helper_def prod_eq_iff)
qed

lemma s6_helper_inv: "helper_inv s6_ir s6_helper"
  using built_root(1) [OF helper_inv_new s6_walk] .

lemma s6_root_cached: "LogicalOpNodes s6_helper 11 = Some s6_root_node"
  using built_root(2) [OF helper_inv_new s6_walk] .

theorem reconstruction_of_built_node_witness:
  "helper_inv s6_ir s6_helper
   \<and> LogicalOpNodes s6_helper 11 = Some s6_root_node
   \<and> AddChain (Expr s6_root_node) = [4] \<and> popcount 4 = 1
   \<and> Log2_64 4 < length (LeafValues s6_helper)
   \<and> logicalOpToValue s6_ir s6_helper s6_root_node = Inr (Some (LeafValues s6_helper ! Log2_64 4))
   \<and> LeafValues s6_helper ! Log2_64 4 = 3"
proof -
  have a: "AddChain (Expr s6_root_node) = [4]" by (simp add: s6_root_node_def)
  have p: "popcount 4 = 1" by code_simp
  have n: "(4 :: 64 word) \<noteq> ExprZero" "(4 :: 64 word) \<noteq> ExprAllOne"
    by (simp_all add: ExprZero_def ExprAllOne_def)
  have l: "LeafValues s6_helper ! Log2_64 4 = 3" by code_simp
  show ?thesis
    using reconstruction_of_built_node [OF s6_helper_inv s6_root_cached] a p n l
      s6_helper_inv s6_root_cached by simp
qed

section \<open>The leaf table and the leaf bits\<close>

lemma one_hot_inj:
  assumes "i < 64" "(2 ^ i :: 64 word) = 2 ^ j"
  shows "i = j"
proof -
  have "bit (2 ^ i :: 64 word) i" using assms(1) by (simp add: bit_exp_word64)
  then have "bit (2 ^ j :: 64 word) i" using assms(2) by simp
  then show ?thesis by (simp add: bit_exp_word64)
qed

lemma leaf_of_bit_unique:
  assumes inv: "helper_inv ir h" and i: "i < length (LeafValues h)"
    and leaf: "opaque_leaf ir w" and c: "LogicalOpNodes h w = Some k"
    and chain: "AddChain (Expr k) = [2 ^ i]"
  shows "w = LeafValues h ! i"
proof -
  have i62: "i < 62" using inv i by (simp add: helper_inv_def)
  have "leaf_node_ok (LeafValues h) w k"
    using inv c opaque_leaf_not_logic [OF leaf] unfolding helper_inv_def by blast
  then obtain m where m: "Expr k = LogicalExpr_of_mask m"
    and cases: "m = ExprZero \<or> m = ExprAllOne \<or> (\<exists>j < length (LeafValues h). m = 2 ^ j \<and> LeafValues h ! j = w)"
    unfolding leaf_node_ok_def by blast
  have mi: "m = 2 ^ i" using m chain by (simp add: LogicalExpr_of_mask_def)
  then have "m \<noteq> ExprZero" "m \<noteq> ExprAllOne" using one_hot_not_sentinel [OF i62] by simp_all
  then obtain j where j: "j < length (LeafValues h)" "m = 2 ^ j" "LeafValues h ! j = w"
    using cases by blast
  have "i = j" using one_hot_inj [of i j] i62 mi j(2) by simp
  then show ?thesis using j(3) by simp
qed

text \<open>
  C10. A walk that starts from a consistent helper (a new helper is one) ends in a
  consistent helper: the leaf table and the leaf set have the same size; the \<open>i\<close>-th
  entry of the table is an opaque leaf, its cached node carries the singleton \<open>{1 << i}\<close>,
  and no other opaque leaf has a node with that polynomial; and for every cached node whose
  polynomial is a singleton of a non-sentinel mask with one bit set, the lookup
  \<^verbatim>\<open>LeafValues[Log2_64(mask)]\<close> of \<^verbatim>\<open>logicalOpToValue\<close> is inside the table and returns the
  value whose node carries that mask. Every nested call of the walk is itself such a
  walk, so this holds at every point of a \<^verbatim>\<open>simplify\<close> call.
\<close>

theorem leaf_table_consistent:
  assumes inv: "helper_inv ir h" and walk: "getLogicalOpNode cfg ir v d h = (r, h')"
  shows
    "length (LeafValues h') = card (LeafSet h')
     \<and> (\<forall>i < length (LeafValues h').
          opaque_leaf ir (LeafValues h' ! i)
          \<and> LogicalOpNodes h' (LeafValues h' ! i)
              = Some \<lparr>Val = LeafValues h' ! i, Expr = LogicalExpr_of_mask (push_bit i 1)\<rparr>
          \<and> (\<forall>w k. opaque_leaf ir w \<and> LogicalOpNodes h' w = Some k
                     \<and> AddChain (Expr k) = [push_bit i 1] \<longrightarrow> w = LeafValues h' ! i))
     \<and> (\<forall>w k m. LogicalOpNodes h' w = Some k \<and> AddChain (Expr k) = [m] \<and> popcount m = 1
                 \<and> m \<noteq> ExprZero \<and> m \<noteq> ExprAllOne
          \<longrightarrow> Log2_64 m < length (LeafValues h')
              \<and> logicalOpToValue ir h' k = Inr (Some (LeafValues h' ! Log2_64 m))
              \<and> LogicalOpNodes h' (LeafValues h' ! Log2_64 m)
                  = Some \<lparr>Val = LeafValues h' ! Log2_64 m, Expr = LogicalExpr_of_mask m\<rparr>)"
proof -
  have inv': "helper_inv ir h'" using getLogicalOpNode_inv(1) [OF inv walk] .
  have c1: "length (LeafValues h') = card (LeafSet h')"
    using inv' by (simp add: helper_inv_card)
  have entry: "opaque_leaf ir (LeafValues h' ! i)
          \<and> LogicalOpNodes h' (LeafValues h' ! i)
              = Some \<lparr>Val = LeafValues h' ! i, Expr = LogicalExpr_of_mask (2 ^ i)\<rparr>"
    if "i < length (LeafValues h')" for i
    using inv' that unfolding helper_inv_def by blast
  have c2: "\<forall>i < length (LeafValues h').
          opaque_leaf ir (LeafValues h' ! i)
          \<and> LogicalOpNodes h' (LeafValues h' ! i)
              = Some \<lparr>Val = LeafValues h' ! i, Expr = LogicalExpr_of_mask (push_bit i 1)\<rparr>
          \<and> (\<forall>w k. opaque_leaf ir w \<and> LogicalOpNodes h' w = Some k
                     \<and> AddChain (Expr k) = [push_bit i 1] \<longrightarrow> w = LeafValues h' ! i)"
    using entry leaf_of_bit_unique [OF inv'] by simp
  have c3: "Log2_64 m < length (LeafValues h')
              \<and> logicalOpToValue ir h' k = Inr (Some (LeafValues h' ! Log2_64 m))
              \<and> LogicalOpNodes h' (LeafValues h' ! Log2_64 m)
                  = Some \<lparr>Val = LeafValues h' ! Log2_64 m, Expr = LogicalExpr_of_mask m\<rparr>"
    if k: "LogicalOpNodes h' w = Some k" and ch: "AddChain (Expr k) = [m]"
      and pc: "popcount m = 1" and ns: "m \<noteq> ExprZero" "m \<noteq> ExprAllOne" for w k m
  proof -
    have ok: "node_ok ir (LeafValues h') w k" using inv' k unfolding helper_inv_def by blast
    then have val: "Val k = w" and e: "expr_ok ir (LeafValues h') w (Expr k)"
      by (simp_all add: node_ok_def)
    have "leaf_mask_below (length (LeafValues h')) m" using e ch by (simp add: expr_ok_def)
    then have l: "Log2_64 m < length (LeafValues h')" and m: "m = 2 ^ Log2_64 m"
      using one_hot_in_table [OF _ pc ns] by blast+
    have "logicalOpToValue ir h' k = Inr (Some (LeafValues h' ! Log2_64 m))"
      using logicalOpToValue_built [OF val e] ch pc ns by simp
    moreover have "LogicalOpNodes h' (LeafValues h' ! Log2_64 m)
                  = Some \<lparr>Val = LeafValues h' ! Log2_64 m, Expr = LogicalExpr_of_mask m\<rparr>"
      using entry [OF l] m by simp
    ultimately show ?thesis using l by simp
  qed
  show ?thesis using c1 c2 c3 by blast
qed

theorem leaf_table_consistent_witness:
  "helper_inv s6_ir new_helper
   \<and> getLogicalOpNode default_config s6_ir 11 0 new_helper = (Some s6_root_node, s6_helper)
   \<and> length (LeafValues s6_helper) = card (LeafSet s6_helper)
   \<and> LeafValues s6_helper = [1, 2, 3]
   \<and> LogicalOpNodes s6_helper (LeafValues s6_helper ! 2)
       = Some \<lparr>Val = LeafValues s6_helper ! 2, Expr = LogicalExpr_of_mask (push_bit 2 1)\<rparr>
   \<and> logicalOpToValue s6_ir s6_helper s6_root_node = Inr (Some (LeafValues s6_helper ! Log2_64 4))"
proof -
  have lv: "LeafValues s6_helper = [1, 2, 3]" by code_simp
  have a: "AddChain (Expr s6_root_node) = [4]" by (simp add: s6_root_node_def)
  have p: "popcount 4 = 1" by code_simp
  have n: "(4 :: 64 word) \<noteq> ExprZero" "(4 :: 64 word) \<noteq> ExprAllOne"
    by (simp_all add: ExprZero_def ExprAllOne_def)
  note t = leaf_table_consistent [OF helper_inv_new s6_walk]
  have t1: "length (LeafValues s6_helper) = card (LeafSet s6_helper)" using t by blast
  have t2: "LogicalOpNodes s6_helper (LeafValues s6_helper ! 2)
       = Some \<lparr>Val = LeafValues s6_helper ! 2, Expr = LogicalExpr_of_mask (push_bit 2 1)\<rparr>"
  proof -
    have "2 < length (LeafValues s6_helper)" by (simp add: lv)
    then show ?thesis using t by blast
  qed
  have t3: "logicalOpToValue s6_ir s6_helper s6_root_node = Inr (Some (LeafValues s6_helper ! Log2_64 4))"
    using t s6_root_cached a p n by blast
  show ?thesis using helper_inv_new s6_walk lv t1 t2 t3 by simp
qed

section \<open>The driver\<close>

lemma simplify_unfold:
  assumes cfg: "MaxLogicOpLeafsToScan cfg \<le> 62"
    and walk: "getLogicalOpNode cfg ir Root 0 h = (rn, h')"
  shows "simplify cfg ir Root (h, c) =
     (case rn of
        None \<Rightarrow> (Inr None, h', c)
      | Some RootNode \<Rightarrow>
          (case logicalOpToValue ir h' RootNode of
             Inl e \<Rightarrow> (Inl e, h', c)
           | Inr NewRoot \<Rightarrow>
               if NewRoot = Some Root then (Inr None, h', c)
               else if NewRoot \<noteq> None then (Inr NewRoot, h', c + 1)
               else (Inr NewRoot, h', c)))"
  using cfg walk by (simp add: simplify_def split: option.splits)

lemma logicalOpToValue_built_no_error:
  assumes "Val Node = v" "expr_ok ir (LeafValues h) v (Expr Node)"
  shows "\<exists>x. logicalOpToValue ir h Node = Inr x"
  unfolding logicalOpToValue_built [OF assms]
  by (simp split: list.splits)

text \<open>
  C1. On a consistent helper (a new helper is one) and under the asserted bound,
  \<^verbatim>\<open>simplify\<close> returns \<^verbatim>\<open>nullptr\<close> exactly when the walk returns \<^verbatim>\<open>nullptr\<close>, or
  \<^verbatim>\<open>logicalOpToValue\<close> returns \<^verbatim>\<open>nullptr\<close>, or it returns the root itself; the counter is
  then unchanged. In every other case \<^verbatim>\<open>simplify\<close> returns the value of
  \<^verbatim>\<open>logicalOpToValue\<close>, which differs from the root, and the counter is one higher. The
  result is never the root.
\<close>

theorem simplify_outcome:
  assumes inv: "helper_inv ir h" and cfg: "MaxLogicOpLeafsToScan cfg \<le> 62"
    and walk: "getLogicalOpNode cfg ir Root 0 h = (rn, h')"
  shows
    "(fst (simplify cfg ir Root (h, c)) = Inr None
        \<longleftrightarrow> rn = None
            \<or> (\<exists>n. rn = Some n \<and> (logicalOpToValue ir h' n = Inr None
                                     \<or> logicalOpToValue ir h' n = Inr (Some Root))))
     \<and> (fst (simplify cfg ir Root (h, c)) = Inr None
        \<longrightarrow> simplify cfg ir Root (h, c) = (Inr None, h', c))
     \<and> (fst (simplify cfg ir Root (h, c)) \<noteq> Inr None
        \<longrightarrow> (\<exists>n v. rn = Some n \<and> logicalOpToValue ir h' n = Inr (Some v) \<and> v \<noteq> Root
                   \<and> simplify cfg ir Root (h, c) = (Inr (Some v), h', c + 1)))
     \<and> fst (simplify cfg ir Root (h, c)) \<noteq> Inr (Some Root)"
proof (cases rn)
  case None
  then show ?thesis using simplify_unfold [OF cfg walk, of c] by simp
next
  case (Some n)
  have w: "getLogicalOpNode cfg ir Root 0 h = (Some n, h')" using walk Some by simp
  obtain x where x: "logicalOpToValue ir h' n = Inr x"
    using logicalOpToValue_built_no_error [OF built_root(3) [OF inv w] built_root(4) [OF inv w]]
    by blast
  show ?thesis
    using simplify_unfold [OF cfg walk, of c] Some x by (cases x) auto
qed

theorem simplify_outcome_witness:
  "helper_inv s6_ir new_helper \<and> MaxLogicOpLeafsToScan default_config \<le> 62
   \<and> getLogicalOpNode default_config s6_ir 11 0 new_helper = (Some s6_root_node, s6_helper)
   \<and> logicalOpToValue s6_ir s6_helper s6_root_node = Inr (Some 3)
   \<and> simplify default_config s6_ir 11 (new_helper, 0) = (Inr (Some 3), s6_helper, 1)"
proof -
  have cfg: "MaxLogicOpLeafsToScan default_config \<le> 62" by (simp add: default_config_def)
  have l: "logicalOpToValue s6_ir s6_helper s6_root_node = Inr (Some 3)" by code_simp
  have f: "fst (simplify default_config s6_ir 11 (new_helper, 0)) \<noteq> Inr None" by code_simp
  show ?thesis
    using simplify_outcome [OF helper_inv_new cfg s6_walk, of 0] helper_inv_new cfg s6_walk l f
    by auto
qed

text \<open>
  C9. Whatever \<^verbatim>\<open>simplify\<close> returns on a consistent helper, other than \<^verbatim>\<open>nullptr\<close>, is the
  zero constant or the all-ones constant of the root's type, or an opaque leaf of the leaf
  table that occurs inside the root expression.
\<close>

theorem simplify_returns_constant_or_leaf:
  assumes inv: "helper_inv ir h"
    and run: "simplify cfg ir Root (h, c) = (Inr (Some r), h', c')"
  shows "r = getNullValue ir (getType ir Root) \<or> r = getAllOnesValue ir (getType ir Root)
         \<or> (opaque_leaf ir r \<and> occurs_in ir Root r \<and> r \<in> set (LeafValues h'))"
proof -
  have cfg: "MaxLogicOpLeafsToScan cfg \<le> 62"
    using run by (auto simp: simplify_def split: if_splits)
  obtain rn h1 where walk: "getLogicalOpNode cfg ir Root 0 h = (rn, h1)"
    by (cases "getLogicalOpNode cfg ir Root 0 h")
  note u = simplify_unfold [OF cfg walk, of c]
  obtain n where n: "rn = Some n" using run u by (cases rn) auto
  have w: "getLogicalOpNode cfg ir Root 0 h = (Some n, h1)" using walk n by simp
  have inv1: "helper_inv ir h1" and val: "Val n = Root"
    and e: "expr_ok ir (LeafValues h1) Root (Expr n)"
    using built_root [OF inv w] by blast+
  have res: "logicalOpToValue ir h1 n = Inr (Some r)" and h': "h' = h1"
    using run u n by (auto split: sum.splits if_splits)
  note b = logicalOpToValue_built [OF val e]
  show ?thesis
  proof (cases "AddChain (Expr n)")
    case Nil
    then show ?thesis using res b by simp
  next
    case (Cons m ms)
    then have ms: "ms = []" using res b by (cases ms) simp_all
    show ?thesis
    proof (cases "m = ExprZero \<or> m = ExprAllOne")
      case True
      then show ?thesis using res b Cons ms by (auto split: if_splits)
    next
      case False
      then have pc: "popcount m = 1" and r: "r = LeafValues h1 ! Log2_64 m"
        using res b Cons ms by (auto split: if_splits)
      have below: "leaf_mask_below (length (LeafValues h1)) m"
        using e Cons by (simp add: expr_ok_def)
      have l: "Log2_64 m < length (LeafValues h1)" and m: "m = 2 ^ Log2_64 m"
        using one_hot_in_table [OF below pc] False by blast+
      have l62: "Log2_64 m < 62" using l inv1 by (simp add: helper_inv_def)
      have "bit m (Log2_64 m)" using m l62 bit_exp_word64 [of "Log2_64 m" "Log2_64 m"] by simp
      then have "occurs_in ir Root (LeafValues h1 ! Log2_64 m)"
        using e Cons l62 unfolding expr_ok_def by simp
      moreover have "opaque_leaf ir (LeafValues h1 ! Log2_64 m)"
        using inv1 l unfolding helper_inv_def by blast
      ultimately show ?thesis using r l h' by simp
    qed
  qed
qed

theorem simplify_returns_constant_or_leaf_witness:
  "helper_inv s6_ir new_helper
   \<and> simplify default_config s6_ir 11 (new_helper, 0) = (Inr (Some 3), s6_helper, 1)
   \<and> 3 \<noteq> getNullValue s6_ir (getType s6_ir 11) \<and> 3 \<noteq> getAllOnesValue s6_ir (getType s6_ir 11)
   \<and> opaque_leaf s6_ir 3 \<and> occurs_in s6_ir 11 3 \<and> 3 \<in> set (LeafValues s6_helper)"
proof -
  have cfg: "MaxLogicOpLeafsToScan default_config \<le> 62" by (simp add: default_config_def)
  have l: "logicalOpToValue s6_ir s6_helper s6_root_node = Inr (Some 3)" by code_simp
  have run: "simplify default_config s6_ir 11 (new_helper, 0) = (Inr (Some 3), s6_helper, 1)"
    using simplify_unfold [OF cfg s6_walk, of 0] l by simp
  have n: "3 \<noteq> getNullValue s6_ir (getType s6_ir 11)"
      "3 \<noteq> getAllOnesValue s6_ir (getType s6_ir 11)"
    by (simp_all add: s6_ir_def)
  show ?thesis
    using simplify_returns_constant_or_leaf [OF helper_inv_new run] helper_inv_new run n by simp
qed

text \<open>
  C7, as the code has it. \<^verbatim>\<open>clear\<close> empties the node cache, the leaf set and the leaf
  table together, which leaves a new helper; \<^verbatim>\<open>simplify\<close> never does so: whatever helper
  a call starts from, the helper it leaves has the leaf table of before as an initial
  segment of its leaf table, contains the leaf set of before and has a node for every
  value cached before.
\<close>

theorem caches_persist_across_simplify:
  assumes run: "simplify cfg ir Root (h, c) = (r, h', c')"
  shows "clear h' = new_helper
         \<and> prefix (LeafValues h) (LeafValues h') \<and> LeafSet h \<subseteq> LeafSet h'
         \<and> dom (LogicalOpNodes h) \<subseteq> dom (LogicalOpNodes h')"
proof -
  have c: "clear h' = new_helper" by (simp add: clear_def new_helper_def)
  obtain rn h1 where walk: "getLogicalOpNode cfg ir Root 0 h = (rn, h1)"
    by (cases "getLogicalOpNode cfg ir Root 0 h")
  have g: "helper_grows h h1" using walk_grows(1) walk by blast
  have "h' = h \<or> h' = h1"
    using run walk by (auto simp: simplify_def split: if_splits option.splits sum.splits)
  then have "helper_grows h h'" using g helper_grows_refl by auto
  then show ?thesis using c by (simp add: helper_grows_def)
qed

theorem caches_persist_across_simplify_witness:
  "simplify default_config nine_leaves_ir 14 (fst after_first_call, snd after_first_call)
     = (fst (simplify default_config nine_leaves_ir 14 after_first_call),
        fst after_second_call, snd after_second_call)
   \<and> LeafValues (fst after_first_call) = [1, 2]
   \<and> LeafSet (fst after_first_call) = {1, 2}
   \<and> map_option Val (LogicalOpNodes (fst after_first_call) 10) = Some 10
   \<and> LeafValues (fst after_second_call) = [1, 2, 3, 4]
   \<and> LeafSet (fst after_second_call) = {1, 2, 3, 4}
   \<and> map_option Val (LogicalOpNodes (fst after_second_call) 10) = Some 10
   \<and> map_option Val (LogicalOpNodes (fst after_second_call) 14) = Some 14
   \<and> clear (fst after_second_call) = new_helper
   \<and> prefix (LeafValues (fst after_first_call)) (LeafValues (fst after_second_call))
   \<and> LeafSet (fst after_first_call) \<subseteq> LeafSet (fst after_second_call)
   \<and> dom (LogicalOpNodes (fst after_first_call))
        \<subseteq> dom (LogicalOpNodes (fst after_second_call))"
proof -
  have e: "simplify default_config nine_leaves_ir 14 (fst after_first_call, snd after_first_call)
     = (fst (simplify default_config nine_leaves_ir 14 after_first_call),
        fst after_second_call, snd after_second_call)"
    by (simp add: after_second_call_def)
  have f: "LeafValues (fst after_first_call) = [1, 2]
     \<and> LeafSet (fst after_first_call) = {1, 2}
     \<and> map_option Val (LogicalOpNodes (fst after_first_call) 10) = Some 10"
    by code_simp
  have s: "LeafValues (fst after_second_call) = [1, 2, 3, 4]
     \<and> LeafSet (fst after_second_call) = {1, 2, 3, 4}
     \<and> map_option Val (LogicalOpNodes (fst after_second_call) 10) = Some 10
     \<and> map_option Val (LogicalOpNodes (fst after_second_call) 14) = Some 14"
    by code_simp
  show ?thesis
    using caches_persist_across_simplify [OF e] e f s by simp
qed

section \<open>The walk, one step at a time\<close>

lemma opaque_leaf_dispatch:
  "opaque_leaf ir v \<Longrightarrow>
     (case kind ir v of
        BinaryOperator opc op0 op1 \<Rightarrow> visitBinOp cfg ir v d h
      | _ \<Rightarrow> visitLeafNode cfg ir v d h) = visitLeafNode cfg ir v d h"
  by (auto simp: opaque_leaf_def visitBinOp.simps split: ValueKind.splits)

lemma opaque_leaf_ExprVal:
  "opaque_leaf ir v \<Longrightarrow>
     (case kind ir v of
        ConstantInt w x \<Rightarrow> if isZero w x then ExprZero
                           else if isAllOnesValue w x then ExprAllOne else e
      | _ \<Rightarrow> e) = e"
  by (auto simp: opaque_leaf_def split: ValueKind.splits)

lemma getLogicalOpNode_cached:
  "d \<noteq> MaxDepthLogicOpsToScan cfg \<Longrightarrow> LogicalOpNodes h v = Some n
     \<Longrightarrow> getLogicalOpNode cfg ir v d h = (Some n, h)"
  by (simp add: getLogicalOpNode.simps)

lemma getLogicalOpNode_leaf:
  assumes "d \<noteq> MaxDepthLogicOpsToScan cfg" "d \<noteq> 0" "LogicalOpNodes h v = None"
    and "opaque_leaf ir v" "v \<notin> LeafSet h" "card (LeafSet h) = N"
    and "\<not> (of_nat N :: 32 word) > MaxLogicOpLeafsToScan cfg"
    and "(2 ^ N :: 64 word) \<noteq> ExprZero" "(2 ^ N :: 64 word) \<noteq> ExprAllOne"
  shows "getLogicalOpNode cfg ir v d h =
           (Some \<lparr>Val = v, Expr = LogicalExpr_of_mask (2 ^ N)\<rparr>,
            h\<lparr>LeafSet := insert v (LeafSet h), LeafValues := LeafValues h @ [v],
              LogicalOpNodes := (LogicalOpNodes h)
                (v \<mapsto> \<lparr>Val = v, Expr = LogicalExpr_of_mask (2 ^ N)\<rparr>)\<rparr>)"
  using assms
  by (simp add: getLogicalOpNode.simps opaque_leaf_dispatch visitLeafNode_def
      opaque_leaf_ExprVal Let_def)

lemma getLogicalOpNode_leaf_sentinel:
  assumes "d \<noteq> MaxDepthLogicOpsToScan cfg" "d \<noteq> 0" "LogicalOpNodes h v = None"
    and "opaque_leaf ir v" "card (LeafSet h) = N"
    and "\<not> (of_nat N :: 32 word) > MaxLogicOpLeafsToScan cfg"
    and "(2 ^ N :: 64 word) = ExprZero"
  shows "getLogicalOpNode cfg ir v d h =
           (Some \<lparr>Val = v, Expr = LogicalExpr_of_mask ExprZero\<rparr>,
            h\<lparr>LogicalOpNodes := (LogicalOpNodes h)
                (v \<mapsto> \<lparr>Val = v, Expr = LogicalExpr_of_mask ExprZero\<rparr>)\<rparr>)"
  using assms
  by (simp add: getLogicalOpNode.simps opaque_leaf_dispatch visitLeafNode_def
      opaque_leaf_ExprVal Let_def)

lemma getLogicalOpNode_all_ones:
  assumes "d \<noteq> MaxDepthLogicOpsToScan cfg" "d \<noteq> 0" "LogicalOpNodes h v = None"
    and "kind ir v = ConstantInt w x" "\<not> isZero w x" "isAllOnesValue w x"
    and "\<not> (of_nat (card (LeafSet h)) :: 32 word) > MaxLogicOpLeafsToScan cfg"
  shows "getLogicalOpNode cfg ir v d h =
           (Some \<lparr>Val = v, Expr = LogicalExpr_of_mask ExprAllOne\<rparr>,
            h\<lparr>LogicalOpNodes := (LogicalOpNodes h)
                (v \<mapsto> \<lparr>Val = v, Expr = LogicalExpr_of_mask ExprAllOne\<rparr>)\<rparr>)"
  using assms
  by (simp add: getLogicalOpNode.simps visitLeafNode_def Let_def)

lemma getLogicalOpNode_binop:
  assumes "d \<noteq> MaxDepthLogicOpsToScan cfg" "LogicalOpNodes h BO = None"
    and "kind ir BO = BinaryOperator opc op0 op1" "opc = And \<or> opc = Or \<or> opc = Xor"
    and "getLogicalOpNode cfg ir op0 (d + 1) h = (Some LHS, h1)"
    and "getLogicalOpNode cfg ir op1 (d + 1) h1 = (Some RHS, h2)"
  shows "getLogicalOpNode cfg ir BO d h =
           (Some \<lparr>Val = BO, Expr =
                   (if opc = And then op_and (Expr LHS) (Expr RHS)
                    else if opc = Or then op_or (Expr LHS) (Expr RHS)
                    else op_xor (Expr LHS) (Expr RHS))\<rparr>,
            h2\<lparr>LogicalOpNodes := (LogicalOpNodes h2)
                (BO \<mapsto> \<lparr>Val = BO, Expr =
                   (if opc = And then op_and (Expr LHS) (Expr RHS)
                    else if opc = Or then op_or (Expr LHS) (Expr RHS)
                    else op_xor (Expr LHS) (Expr RHS))\<rparr>)\<rparr>)"
  using assms
  by (auto simp: getLogicalOpNode.simps [of cfg ir BO] visitBinOp.simps [of cfg ir BO] Let_def)

text \<open>
  C8. Let \<open>a\<close>, \<open>b\<close>, \<open>c\<close> be opaque leaves, \<open>ones\<close> an all-ones constant, and let
  \<open>root\<close> be \<^verbatim>\<open>((a & b) | (a ^ c)) ^ (((b & c) ^ ones) & a)\<close>, built from eleven distinct
  values. On a new helper and with the default bounds, the walk gives \<open>a\<close>, \<open>b\<close>, \<open>c\<close>
  the bits 0, 1, 2 in this order, the polynomial of the root is the singleton \<open>{0b100}\<close>,
  and \<^verbatim>\<open>simplify\<close> returns the leaf \<open>c\<close> and counts one simplification.
\<close>

theorem s6_reduces_to_c:
  assumes d: "distinct [a, b, c, ones, ab, ac, orv, bc, nbc, r2, root]"
    and la: "opaque_leaf ir a" and lb: "opaque_leaf ir b" and lc: "opaque_leaf ir c"
    and k1: "kind ir ones = ConstantInt w x" "\<not> isZero w x" "isAllOnesValue w x"
    and k2: "kind ir ab = BinaryOperator And a b"
    and k3: "kind ir ac = BinaryOperator Xor a c"
    and k4: "kind ir orv = BinaryOperator Or ab ac"
    and k5: "kind ir bc = BinaryOperator And b c"
    and k6: "kind ir nbc = BinaryOperator Xor bc ones"
    and k7: "kind ir r2 = BinaryOperator And nbc a"
    and k8: "kind ir root = BinaryOperator Xor orv r2"
  shows "\<exists>n h. getLogicalOpNode default_config ir root 0 new_helper = (Some n, h)
           \<and> AddChain (Expr n) = [4] \<and> LeafValues h = [a, b, c]
           \<and> LogicalOpNodes h a = Some \<lparr>Val = a, Expr = LogicalExpr_of_mask 1\<rparr>
           \<and> LogicalOpNodes h b = Some \<lparr>Val = b, Expr = LogicalExpr_of_mask 2\<rparr>
           \<and> LogicalOpNodes h c = Some \<lparr>Val = c, Expr = LogicalExpr_of_mask 4\<rparr>
           \<and> simplify default_config ir root (new_helper, cnt) = (Inr (Some c), h, cnt + 1)"
proof -
  let ?cfg = default_config
  define ea where "ea = LogicalExpr_of_mask 1"
  define eb where "eb = LogicalExpr_of_mask 2"
  define ec where "ec = LogicalExpr_of_mask 4"
  define e1 where "e1 = LogicalExpr_of_mask ExprAllOne"
  define eab where "eab = op_and ea eb"
  define eac where "eac = op_xor ea ec"
  define eor where "eor = op_or eab eac"
  define ebc where "ebc = op_and eb ec"
  define enbc where "enbc = op_xor ebc e1"
  define er2 where "er2 = op_and enbc ea"
  define eroot where "eroot = op_xor eor er2"
  note e_defs = ea_def eb_def ec_def e1_def eab_def eac_def eor_def ebc_def enbc_def er2_def
    eroot_def
  define c0 :: "Value \<rightharpoonup> LogicalOpNode" where "c0 = Map.empty"
  define c1 where "c1 = c0(a \<mapsto> \<lparr>Val = a, Expr = ea\<rparr>)"
  define c2 where "c2 = c1(b \<mapsto> \<lparr>Val = b, Expr = eb\<rparr>)"
  define c3 where "c3 = c2(ab \<mapsto> \<lparr>Val = ab, Expr = eab\<rparr>)"
  define c4 where "c4 = c3(c \<mapsto> \<lparr>Val = c, Expr = ec\<rparr>)"
  define c5 where "c5 = c4(ac \<mapsto> \<lparr>Val = ac, Expr = eac\<rparr>)"
  define c6 where "c6 = c5(orv \<mapsto> \<lparr>Val = orv, Expr = eor\<rparr>)"
  define c7 where "c7 = c6(bc \<mapsto> \<lparr>Val = bc, Expr = ebc\<rparr>)"
  define c8 where "c8 = c7(ones \<mapsto> \<lparr>Val = ones, Expr = e1\<rparr>)"
  define c9 where "c9 = c8(nbc \<mapsto> \<lparr>Val = nbc, Expr = enbc\<rparr>)"
  define c10 where "c10 = c9(r2 \<mapsto> \<lparr>Val = r2, Expr = er2\<rparr>)"
  define c11 where "c11 = c10(root \<mapsto> \<lparr>Val = root, Expr = eroot\<rparr>)"
  note c_defs = c0_def c1_def c2_def c3_def c4_def c5_def c6_def c7_def c8_def c9_def c10_def
    c11_def
  define H where "H = (\<lambda>cache ls lv. \<lparr>LogicalOpNodes = cache, LeafSet = ls, LeafValues = lv\<rparr>)"
  have cfg: "MaxDepthLogicOpsToScan ?cfg = 8" "MaxLogicOpLeafsToScan ?cfg = 8"
    by (simp_all add: default_config_def)
  have sent: "(2 ^ 0 :: 64 word) \<noteq> ExprZero" "(2 ^ 0 :: 64 word) \<noteq> ExprAllOne"
      "(2 ^ 1 :: 64 word) \<noteq> ExprZero" "(2 ^ 1 :: 64 word) \<noteq> ExprAllOne"
      "(2 ^ 2 :: 64 word) \<noteq> ExprZero" "(2 ^ 2 :: 64 word) \<noteq> ExprAllOne"
    by (simp_all add: ExprZero_def ExprAllOne_def)
  \<comment> \<open>the left operand of the root: \<open>(a & b) | (a ^ c)\<close>\<close>
  have s1: "getLogicalOpNode ?cfg ir a 3 (H c0 {} []) = (Some \<lparr>Val = a, Expr = ea\<rparr>, H c1 {a} [a])"
    using getLogicalOpNode_leaf [of 3 ?cfg "H c0 {} []" a ir 0] la sent
    by (auto simp add: cfg H_def c_defs e_defs)
  have s2: "getLogicalOpNode ?cfg ir b 3 (H c1 {a} [a])
              = (Some \<lparr>Val = b, Expr = eb\<rparr>, H c2 {a, b} [a, b])"
    using getLogicalOpNode_leaf [of 3 ?cfg "H c1 {a} [a]" b ir 1] lb sent d
    by (auto simp add: cfg H_def c_defs e_defs insert_commute)
  have s3: "getLogicalOpNode ?cfg ir ab 2 (H c0 {} [])
              = (Some \<lparr>Val = ab, Expr = eab\<rparr>, H c3 {a, b} [a, b])"
    using getLogicalOpNode_binop [of 2 ?cfg "H c0 {} []" ab ir And a b, OF _ _ k2 _] s1 s2
    by (auto simp add: cfg H_def c_defs eab_def)
  have s4: "getLogicalOpNode ?cfg ir a 3 (H c3 {a, b} [a, b])
              = (Some \<lparr>Val = a, Expr = ea\<rparr>, H c3 {a, b} [a, b])"
    using d by (intro getLogicalOpNode_cached) (simp_all add: cfg H_def c_defs)
  have s5: "getLogicalOpNode ?cfg ir c 3 (H c3 {a, b} [a, b])
              = (Some \<lparr>Val = c, Expr = ec\<rparr>, H c4 {a, b, c} [a, b, c])"
    using getLogicalOpNode_leaf [of 3 ?cfg "H c3 {a, b} [a, b]" c ir 2] lc sent d
    by (auto simp add: cfg H_def c_defs e_defs insert_commute)
  have s6: "getLogicalOpNode ?cfg ir ac 2 (H c3 {a, b} [a, b])
              = (Some \<lparr>Val = ac, Expr = eac\<rparr>, H c5 {a, b, c} [a, b, c])"
    using getLogicalOpNode_binop [of 2 ?cfg "H c3 {a, b} [a, b]" ac ir Xor a c, OF _ _ k3 _] s4 s5 d
    by (auto simp add: cfg H_def c_defs eac_def)
  have s7: "getLogicalOpNode ?cfg ir orv 1 (H c0 {} [])
              = (Some \<lparr>Val = orv, Expr = eor\<rparr>, H c6 {a, b, c} [a, b, c])"
    using getLogicalOpNode_binop [of 1 ?cfg "H c0 {} []" orv ir Or ab ac, OF _ _ k4 _] s3 s6
    by (auto simp add: cfg H_def c_defs eor_def)
  \<comment> \<open>the right operand of the root: \<open>((b & c) ^ -1) & a\<close>\<close>
  have s8: "getLogicalOpNode ?cfg ir b 4 (H c6 {a, b, c} [a, b, c])
              = (Some \<lparr>Val = b, Expr = eb\<rparr>, H c6 {a, b, c} [a, b, c])"
    using d by (intro getLogicalOpNode_cached) (simp_all add: cfg H_def c_defs)
  have s9: "getLogicalOpNode ?cfg ir c 4 (H c6 {a, b, c} [a, b, c])
              = (Some \<lparr>Val = c, Expr = ec\<rparr>, H c6 {a, b, c} [a, b, c])"
    using d by (intro getLogicalOpNode_cached) (simp_all add: cfg H_def c_defs)
  have s10: "getLogicalOpNode ?cfg ir bc 3 (H c6 {a, b, c} [a, b, c])
              = (Some \<lparr>Val = bc, Expr = ebc\<rparr>, H c7 {a, b, c} [a, b, c])"
    using getLogicalOpNode_binop [of 3 ?cfg "H c6 {a, b, c} [a, b, c]" bc ir And b c, OF _ _ k5 _]
      s8 s9 d
    by (auto simp add: cfg H_def c_defs ebc_def)
  have card3: "card {a, b, c} = 3" using d by simp
  have s11: "getLogicalOpNode ?cfg ir ones 3 (H c7 {a, b, c} [a, b, c])
              = (Some \<lparr>Val = ones, Expr = e1\<rparr>, H c8 {a, b, c} [a, b, c])"
    using getLogicalOpNode_all_ones [of 3 ?cfg "H c7 {a, b, c} [a, b, c]" ones ir w x] k1 d card3
    by (auto simp add: cfg H_def c_defs e_defs)
  have s12: "getLogicalOpNode ?cfg ir nbc 2 (H c6 {a, b, c} [a, b, c])
              = (Some \<lparr>Val = nbc, Expr = enbc\<rparr>, H c9 {a, b, c} [a, b, c])"
    using getLogicalOpNode_binop [of 2 ?cfg "H c6 {a, b, c} [a, b, c]" nbc ir Xor bc ones, OF _ _ k6 _]
      s10 s11 d
    by (auto simp add: cfg H_def c_defs enbc_def)
  have s13: "getLogicalOpNode ?cfg ir a 2 (H c9 {a, b, c} [a, b, c])
              = (Some \<lparr>Val = a, Expr = ea\<rparr>, H c9 {a, b, c} [a, b, c])"
    using d by (intro getLogicalOpNode_cached) (simp_all add: cfg H_def c_defs)
  have s14: "getLogicalOpNode ?cfg ir r2 1 (H c6 {a, b, c} [a, b, c])
              = (Some \<lparr>Val = r2, Expr = er2\<rparr>, H c10 {a, b, c} [a, b, c])"
    using getLogicalOpNode_binop [of 1 ?cfg "H c6 {a, b, c} [a, b, c]" r2 ir And nbc a, OF _ _ k7 _]
      s12 s13 d
    by (auto simp add: cfg H_def c_defs er2_def)
  have s15: "getLogicalOpNode ?cfg ir root 0 (H c0 {} [])
              = (Some \<lparr>Val = root, Expr = eroot\<rparr>, H c11 {a, b, c} [a, b, c])"
    using getLogicalOpNode_binop [of 0 ?cfg "H c0 {} []" root ir Xor orv r2, OF _ _ k8 _] s7 s14
    by (auto simp add: cfg H_def c_defs eroot_def)
  have new: "new_helper = H c0 {} []" by (simp add: new_helper_def H_def c0_def)
  have chain: "AddChain eroot = [4]" unfolding e_defs by code_simp
  have p: "popcount 4 = 1" "Log2_64 4 = 2" by code_simp+
  have n4: "(4 :: 64 word) \<noteq> ExprZero" "(4 :: 64 word) \<noteq> ExprAllOne"
    by (simp_all add: ExprZero_def ExprAllOne_def)
  have rec: "logicalOpToValue ir (H c11 {a, b, c} [a, b, c]) \<lparr>Val = root, Expr = eroot\<rparr>
               = Inr (Some c)"
    by (simp add: logicalOpToValue_cases chain p n4 H_def)
  have "c \<noteq> root" using d by simp
  then have simp: "simplify ?cfg ir root (new_helper, cnt)
                     = (Inr (Some c), H c11 {a, b, c} [a, b, c], cnt + 1)"
    using s15 rec by (simp add: simplify_def cfg new)
  have ca: "LogicalOpNodes (H c11 {a, b, c} [a, b, c]) a = Some \<lparr>Val = a, Expr = LogicalExpr_of_mask 1\<rparr>"
    using d by (simp add: H_def c_defs ea_def)
  have cb: "LogicalOpNodes (H c11 {a, b, c} [a, b, c]) b = Some \<lparr>Val = b, Expr = LogicalExpr_of_mask 2\<rparr>"
    using d by (simp add: H_def c_defs eb_def)
  have cc: "LogicalOpNodes (H c11 {a, b, c} [a, b, c]) c = Some \<lparr>Val = c, Expr = LogicalExpr_of_mask 4\<rparr>"
    using d by (simp add: H_def c_defs ec_def)
  have lv: "LeafValues (H c11 {a, b, c} [a, b, c]) = [a, b, c]" by (simp add: H_def)
  have walk: "getLogicalOpNode ?cfg ir root 0 new_helper
                = (Some \<lparr>Val = root, Expr = eroot\<rparr>, H c11 {a, b, c} [a, b, c])"
    using s15 by (simp only: new)
  have chain': "AddChain (Expr \<lparr>Val = root, Expr = eroot\<rparr>) = [4]"
    using chain by simp
  show ?thesis
    using walk chain' lv ca cb cc simp by blast
qed

theorem s6_reduces_to_c_witness:
  "distinct [1, 2, 3, 4, 5, 6, 7, 8, 9, 10, 11 :: Value]
   \<and> opaque_leaf s6_ir 1 \<and> opaque_leaf s6_ir 2 \<and> opaque_leaf s6_ir 3
   \<and> kind s6_ir 4 = ConstantInt 8 255 \<and> \<not> isZero 8 255 \<and> isAllOnesValue 8 255
   \<and> kind s6_ir 5 = BinaryOperator And 1 2 \<and> kind s6_ir 6 = BinaryOperator Xor 1 3
   \<and> kind s6_ir 7 = BinaryOperator Or 5 6 \<and> kind s6_ir 8 = BinaryOperator And 2 3
   \<and> kind s6_ir 9 = BinaryOperator Xor 8 4 \<and> kind s6_ir 10 = BinaryOperator And 9 1
   \<and> kind s6_ir 11 = BinaryOperator Xor 7 10
   \<and> fst (simplify default_config s6_ir 11 (new_helper, 0)) = Inr (Some 3)
   \<and> snd (snd (simplify default_config s6_ir 11 (new_helper, 0))) = 1
   \<and> LeafValues (fst (snd (simplify default_config s6_ir 11 (new_helper, 0)))) = [1, 2, 3]"
proof -
  have d: "distinct [1, 2, 3, 4, 5, 6, 7, 8, 9, 10, 11 :: Value]" by simp
  have l: "opaque_leaf s6_ir 1" "opaque_leaf s6_ir 2" "opaque_leaf s6_ir 3"
    by (simp_all add: opaque_leaf_def s6_ir_def)
  have k1: "kind s6_ir 4 = ConstantInt 8 255" "\<not> isZero 8 255" "isAllOnesValue 8 255"
    by (simp_all add: s6_ir_def isZero_def isAllOnesValue_def)
  have k: "kind s6_ir 5 = BinaryOperator And 1 2" "kind s6_ir 6 = BinaryOperator Xor 1 3"
      "kind s6_ir 7 = BinaryOperator Or 5 6" "kind s6_ir 8 = BinaryOperator And 2 3"
      "kind s6_ir 9 = BinaryOperator Xor 8 4" "kind s6_ir 10 = BinaryOperator And 9 1"
      "kind s6_ir 11 = BinaryOperator Xor 7 10"
    by (simp_all add: s6_ir_def)
  obtain n h where "simplify default_config s6_ir 11 (new_helper, 0) = (Inr (Some 3), h, 0 + 1)"
      and "LeafValues h = [1, 2, 3]"
    using s6_reduces_to_c [OF d l k1 k, of 0] by blast
  then show ?thesis using d l k1 k by simp
qed

section \<open>The walk over a chain of 63 leaves\<close>

lemma op_and_singletons:
  "AddChain a = [L] \<Longrightarrow> AddChain b = [R] \<Longrightarrow>
     AddChain (op_and a b)
       = (if (L AND ExprZero) \<noteq> 0 \<or> (R AND ExprZero) \<noteq> 0 then [] else [NewMask L R])"
  by (simp add: op_and_def op_times_def times_assign_def updateLeafMask_def insert_or_erase_def)

lemma depth_word:
  assumes "d < 100"
  shows "(of_nat d :: 32 word) \<noteq> 100" and "1 \<le> d \<Longrightarrow> (of_nat d :: 32 word) \<noteq> 0"
proof -
  have u: "unat (of_nat d :: 32 word) = d" using assms by (simp add: unat_of_nat)
  show "(of_nat d :: 32 word) \<noteq> 100"
  proof
    assume "(of_nat d :: 32 word) = 100"
    then have "unat (of_nat d :: 32 word) = unat (100 :: 32 word)" by simp
    then show False using u assms by simp
  qed
  show "(of_nat d :: 32 word) \<noteq> 0" if "1 \<le> d"
  proof
    assume "(of_nat d :: 32 word) = 0"
    then have "unat (of_nat d :: 32 word) = unat (0 :: 32 word)" by simp
    then show False using u that by simp
  qed
qed

lemma leaf_count_word:
  assumes "N \<le> 62"
  shows "\<not> (of_nat N :: 32 word) > 62"
proof -
  have "unat (of_nat N :: 32 word) = N" using assms by (simp add: unat_of_nat)
  then show ?thesis using assms by (simp add: word_less_nat_alt)
qed

lemma mask_step:
  assumes "n < 62"
  shows "NewMask (mask n) (2 ^ n) = mask (Suc n)"
    and "(mask n AND ExprZero) = (0 :: 64 word)"
    and "((2 ^ n :: 64 word) AND ExprZero) = 0"
proof -
  have m: "(mask n :: 64 word) OR 2 ^ n = mask (Suc n)"
    by (simp add: mask_Suc_exp or.commute)
  have n63: "\<not> bit (mask (Suc n) :: 64 word) 63"
    using assms by (simp add: bit_mask_iff)
  have z: "(mask (Suc n) AND ExprAllOne) = (0 :: 64 word)"
    using n63 by (simp add: and_ExprAllOne_iff)
  show "NewMask (mask n) (2 ^ n) = mask (Suc n)"
    unfolding NewMask_def Let_def m using z by simp
  show "(mask n AND ExprZero) = (0 :: 64 word)"
    using assms by (simp add: and_ExprZero_iff bit_mask_iff)
  show "((2 ^ n :: 64 word) AND ExprZero) = 0"
    using assms by (simp add: and_ExprZero_iff bit_exp_word64)
qed

lemma and_chain_kind_node:
  "k \<le> 61 \<Longrightarrow>
     kind and_chain_ir (and_chain_node (Suc k)) = BinaryOperator And (and_chain_node k) (2 * Suc k)"
  by (auto simp: and_chain_ir_def and_chain_node_def)

lemma and_chain_leaf: "opaque_leaf and_chain_ir (2 * j)"
proof -
  have "2 * j \<noteq> (1 :: nat)" "2 * j \<noteq> (127 :: nat)" by presburger+
  then show ?thesis by (simp add: and_chain_ir_def opaque_leaf_def)
qed

lemma and_chain_walk:
  assumes "k \<le> 61" "k = 0 \<longrightarrow> 1 \<le> d" "d + k < 100"
  shows "\<exists>n h. getLogicalOpNode config_62_deep and_chain_ir (and_chain_node k) (of_nat d) new_helper
                  = (Some n, h)
               \<and> AddChain (Expr n) = [mask (Suc k)]
               \<and> LeafValues h = map (\<lambda>j. 2 * j) [0..<Suc k]
               \<and> LeafSet h = set (LeafValues h)
               \<and> (\<forall>v. LogicalOpNodes h v \<noteq> None \<longrightarrow> v \<le> 2 * k + 1)"
  using assms
proof (induction k arbitrary: d)
  case 0
  have d: "(of_nat d :: 32 word) \<noteq> 100" "(of_nat d :: 32 word) \<noteq> 0"
    using depth_word [of d] 0 by simp_all
  have "getLogicalOpNode config_62_deep and_chain_ir 0 (of_nat d) new_helper
          = (Some \<lparr>Val = 0, Expr = LogicalExpr_of_mask (2 ^ 0)\<rparr>,
             new_helper\<lparr>LeafSet := insert 0 (LeafSet new_helper),
               LeafValues := LeafValues new_helper @ [0],
               LogicalOpNodes := (LogicalOpNodes new_helper)
                 (0 \<mapsto> \<lparr>Val = 0, Expr = LogicalExpr_of_mask (2 ^ 0)\<rparr>)\<rparr>)"
    using d and_chain_leaf [of 0]
    by (intro getLogicalOpNode_leaf)
       (simp_all add: config_62_deep_def new_helper_def ExprZero_def ExprAllOne_def)
  then show ?case
    by (simp add: and_chain_node_def new_helper_def LogicalExpr_of_mask_def)
next
  case (Suc k)
  let ?cfg = config_62_deep and ?ir = and_chain_ir
  have k: "k \<le> 61" "Suc k < 62" using Suc.prems by simp_all
  have dw: "(of_nat d :: 32 word) \<noteq> 100" "(of_nat (Suc d) :: 32 word) \<noteq> 100"
      "(of_nat (Suc d) :: 32 word) \<noteq> 0"
    using depth_word [of d] depth_word [of "Suc d"] Suc.prems by simp_all
  obtain n h where w: "getLogicalOpNode ?cfg ?ir (and_chain_node k) (of_nat (Suc d)) new_helper
                         = (Some n, h)"
    and ch: "AddChain (Expr n) = [mask (Suc k)]"
    and lv: "LeafValues h = map (\<lambda>j. 2 * j) [0..<Suc k]"
    and ls: "LeafSet h = set (LeafValues h)"
    and dom: "\<forall>v. LogicalOpNodes h v \<noteq> None \<longrightarrow> v \<le> 2 * k + 1"
    using Suc.IH [of "Suc d"] Suc.prems by auto
  let ?leaf = "2 * Suc k"
  have unc: "LogicalOpNodes h ?leaf = None" using dom by force
  have notin: "?leaf \<notin> LeafSet h" by (auto simp: ls lv)
  have dl: "distinct (LeafValues h)" by (auto simp: lv distinct_map inj_on_def)
  have "card (LeafSet h) = length (LeafValues h)"
    unfolding ls using dl by (rule distinct_card)
  then have card: "card (LeafSet h) = Suc k" by (simp add: lv)
  have ns: "(2 ^ Suc k :: 64 word) \<noteq> ExprZero" "(2 ^ Suc k :: 64 word) \<noteq> ExprAllOne"
    using one_hot_not_sentinel [OF k(2)] by simp_all
  define nl where "nl = \<lparr>Val = ?leaf, Expr = LogicalExpr_of_mask (2 ^ Suc k)\<rparr>"
  define h1 where "h1 = h\<lparr>LeafSet := insert ?leaf (LeafSet h),
                           LeafValues := LeafValues h @ [?leaf],
                           LogicalOpNodes := (LogicalOpNodes h)(?leaf \<mapsto> nl)\<rparr>"
  have md: "MaxDepthLogicOpsToScan ?cfg = 100" and ml: "MaxLogicOpLeafsToScan ?cfg = 62"
    by (simp_all add: config_62_deep_def)
  have w1: "getLogicalOpNode ?cfg ?ir ?leaf (of_nat (Suc d)) h = (Some nl, h1)"
    unfolding nl_def h1_def
  proof (rule getLogicalOpNode_leaf)
    show "(of_nat (Suc d) :: 32 word) \<noteq> MaxDepthLogicOpsToScan ?cfg"
      unfolding md by (rule dw(2))
    show "(of_nat (Suc d) :: 32 word) \<noteq> 0" by (rule dw(3))
    show "LogicalOpNodes h ?leaf = None" by (rule unc)
    show "opaque_leaf ?ir ?leaf" by (rule and_chain_leaf)
    show "?leaf \<notin> LeafSet h" by (rule notin)
    show "card (LeafSet h) = Suc k" by (rule card)
    show "\<not> MaxLogicOpLeafsToScan ?cfg < (of_nat (Suc k) :: 32 word)"
      unfolding ml using leaf_count_word [of "Suc k"] k(2) by simp
    show "(2 ^ Suc k :: 64 word) \<noteq> ExprZero" by (rule ns(1))
    show "(2 ^ Suc k :: 64 word) \<noteq> ExprAllOne" by (rule ns(2))
  qed
  define nr where "nr = \<lparr>Val = and_chain_node (Suc k), Expr = op_and (Expr n) (Expr nl)\<rparr>"
  have sd: "(of_nat (Suc d) :: 32 word) = of_nat d + 1" by (simp add: add.commute)
  have w1': "getLogicalOpNode ?cfg ?ir ?leaf (of_nat d + 1) h = (Some nl, h1)"
    using w1 by (simp only: sd)
  have w': "getLogicalOpNode ?cfg ?ir (and_chain_node k) (of_nat d + 1) new_helper = (Some n, h)"
    using w by (simp only: sd)
  have w2: "getLogicalOpNode ?cfg ?ir (and_chain_node (Suc k)) (of_nat d) new_helper
              = (Some nr, h1\<lparr>LogicalOpNodes := (LogicalOpNodes h1)(and_chain_node (Suc k) \<mapsto> nr)\<rparr>)"
    unfolding nr_def
  proof (rule getLogicalOpNode_binop [where opc = And, simplified])
    show "(of_nat d :: 32 word) \<noteq> MaxDepthLogicOpsToScan ?cfg" unfolding md by (rule dw(1))
    show "LogicalOpNodes new_helper (and_chain_node (Suc k)) = None" by (simp add: new_helper_def)
    show "kind ?ir (and_chain_node (Suc k)) = BinaryOperator And (and_chain_node k) ?leaf"
      by (rule and_chain_kind_node [OF k(1)])
    show "getLogicalOpNode ?cfg ?ir (and_chain_node k) (of_nat d + 1) new_helper = (Some n, h)"
      by (rule w')
    show "getLogicalOpNode ?cfg ?ir ?leaf (of_nat d + 1) h = (Some nl, h1)" by (rule w1')
  qed
  have chl: "AddChain (Expr nl) = [2 ^ Suc k]" by (simp add: nl_def LogicalExpr_of_mask_def)
  have chr: "AddChain (Expr nr) = [mask (Suc (Suc k))]"
    using op_and_singletons [OF ch chl] mask_step [OF k(2)] by (simp add: nr_def)
  define h2 where "h2 = h1\<lparr>LogicalOpNodes := (LogicalOpNodes h1)(and_chain_node (Suc k) \<mapsto> nr)\<rparr>"
  have lv2: "LeafValues h2 = map (\<lambda>j. 2 * j) [0..<Suc (Suc k)]"
    by (simp add: h2_def h1_def lv)
  have ls2: "LeafSet h2 = set (LeafValues h2)" by (simp add: h2_def h1_def ls)
  have dom2: "\<forall>v. LogicalOpNodes h2 v \<noteq> None \<longrightarrow> v \<le> 2 * Suc k + 1"
    using dom by (auto simp: h2_def h1_def and_chain_node_def)
  have "getLogicalOpNode ?cfg ?ir (and_chain_node (Suc k)) (of_nat d) new_helper = (Some nr, h2)"
    using w2 by (simp only: h2_def)
  then show ?case
    using chr lv2 ls2 dom2 by blast
qed

text \<open>
  C4. With the leaf bound 62, which the assertion admits, \<^verbatim>\<open>simplify\<close> on the \<^verbatim>\<open>and\<close> of
  63 distinct opaque values gives the first 62 the bits \<open>0, \<dots>, 61\<close> and the 63rd the mask
  \<open>1 << 62\<close>, the zero sentinel; the conjunction is then folded to the zero constant.
\<close>

theorem leaf_63_gets_zero_sentinel:
  "MaxLogicOpLeafsToScan config_62_deep \<le> 62
   \<and> kind and_chain_ir 124 = OtherValue
   \<and> kind and_chain_ir 125 = BinaryOperator And 123 124
   \<and> kind and_chain_ir 1 = ConstantInt 8 0
   \<and> length (LeafValues (fst (snd (simplify config_62_deep and_chain_ir 125 (new_helper, 0))))) = 62
   \<and> map_option Expr
        (LogicalOpNodes (fst (snd (simplify config_62_deep and_chain_ir 125 (new_helper, 0)))) 124)
       = Some (LogicalExpr_of_mask ExprZero)
   \<and> fst (simplify config_62_deep and_chain_ir 125 (new_helper, 0)) = Inr (Some 1)
   \<and> snd (snd (simplify config_62_deep and_chain_ir 125 (new_helper, 0))) = 1"
proof -
  let ?cfg = config_62_deep and ?ir = and_chain_ir
  have md: "MaxDepthLogicOpsToScan ?cfg = 100" and ml: "MaxLogicOpLeafsToScan ?cfg = 62"
    by (simp_all add: config_62_deep_def)
  have node: "and_chain_node 61 = 123" "and_chain_node 62 = 125"
    by (simp_all add: and_chain_node_def)
  obtain n h where w: "getLogicalOpNode ?cfg ?ir 123 1 new_helper = (Some n, h)"
    and ch: "AddChain (Expr n) = [mask 62]"
    and lv: "LeafValues h = map (\<lambda>j. 2 * j) [0..<62]"
    and ls: "LeafSet h = set (LeafValues h)"
    and dom: "\<forall>v. LogicalOpNodes h v \<noteq> None \<longrightarrow> v \<le> 123"
    using and_chain_walk [of 61 1] by (auto simp: node simp del: upt_Suc upt_rec_numeral)
  have dl: "distinct (LeafValues h)"
    by (auto simp: lv distinct_map inj_on_def simp del: upt_rec_numeral)
  have "card (LeafSet h) = length (LeafValues h)"
    unfolding ls using dl by (rule distinct_card)
  then have card: "card (LeafSet h) = 62" by (simp add: lv del: upt_rec_numeral)
  have unc: "LogicalOpNodes h 124 = None" using dom by force
  have leaf: "opaque_leaf ?ir 124" using and_chain_leaf [of 62] by simp
  define nl where "nl = \<lparr>Val = 124, Expr = LogicalExpr_of_mask ExprZero\<rparr>"
  define h1 where "h1 = h\<lparr>LogicalOpNodes := (LogicalOpNodes h)(124 \<mapsto> nl)\<rparr>"
  have w1: "getLogicalOpNode ?cfg ?ir 124 1 h = (Some nl, h1)"
    unfolding nl_def h1_def
  proof (rule getLogicalOpNode_leaf_sentinel)
    show "(1 :: 32 word) \<noteq> MaxDepthLogicOpsToScan ?cfg" by (simp add: md)
    show "(1 :: 32 word) \<noteq> 0" by simp
    show "LogicalOpNodes h 124 = None" by (rule unc)
    show "opaque_leaf ?ir 124" by (rule leaf)
    show "card (LeafSet h) = 62" by (rule card)
    show "\<not> MaxLogicOpLeafsToScan ?cfg < (of_nat 62 :: 32 word)" by (simp add: ml)
    show "(2 ^ 62 :: 64 word) = ExprZero" by (simp add: ExprZero_def)
  qed
  define nr where "nr = \<lparr>Val = 125, Expr = op_and (Expr n) (Expr nl)\<rparr>"
  define h2 where "h2 = h1\<lparr>LogicalOpNodes := (LogicalOpNodes h1)(125 \<mapsto> nr)\<rparr>"
  have k125: "kind ?ir 125 = BinaryOperator And 123 124"
    using and_chain_kind_node [of 61] by (simp add: node)
  have w2: "getLogicalOpNode ?cfg ?ir 125 0 new_helper = (Some nr, h2)"
    unfolding nr_def h2_def
  proof (rule getLogicalOpNode_binop [where opc = And, simplified])
    show "(0 :: 32 word) \<noteq> MaxDepthLogicOpsToScan ?cfg" by (simp add: md)
    show "LogicalOpNodes new_helper 125 = None" by (simp add: new_helper_def)
    show "kind ?ir 125 = BinaryOperator And 123 124" by (rule k125)
    show "getLogicalOpNode ?cfg ?ir 123 (0 + 1) new_helper = (Some n, h)" using w by simp
    show "getLogicalOpNode ?cfg ?ir 124 (0 + 1) h = (Some nl, h1)" using w1 by simp
  qed
  have chl: "AddChain (Expr nl) = [ExprZero]" by (simp add: nl_def LogicalExpr_of_mask_def)
  have zz: "(ExprZero AND ExprZero) \<noteq> 0" by (simp add: ExprZero_def)
  have chr: "AddChain (Expr nr) = []"
    using op_and_singletons [OF ch chl] zz by (simp add: nr_def)
  have vr: "Val nr = 125" by (simp add: nr_def)
  have rec: "logicalOpToValue ?ir h2 nr = Inr (Some 1)"
    by (simp add: logicalOpToValue_cases chr vr and_chain_ir_def)
  have run: "simplify ?cfg ?ir 125 (new_helper, 0) = (Inr (Some 1), h2, 1)"
    using w2 rec by (simp add: simplify_def ml)
  have len: "length (LeafValues h2) = 62"
    by (simp add: h2_def h1_def lv del: upt_rec_numeral)
  have c124: "map_option Expr (LogicalOpNodes h2 124) = Some (LogicalExpr_of_mask ExprZero)"
    by (simp add: h2_def h1_def nl_def)
  have k: "kind ?ir 124 = OtherValue" "kind ?ir 1 = ConstantInt 8 0"
    by (simp_all add: and_chain_ir_def)
  show ?thesis
    using run len c124 k k125 ml by simp
qed

section \<open>The list model of the dense set\<close>

text \<open>
  The list stands for a set whose iteration order the code does not fix. The results
  of both operators, read as sets, depend only on the operands read as sets: whatever the
  order in which the masks are visited, the same set of masks comes out.
\<close>

lemma plus_set:
  assumes "distinct (AddChain b)"
  shows "set (AddChain (op_plus a b))
           = (set (AddChain a) - set (AddChain b)) \<union> (set (AddChain b) - set (AddChain a))"
  using assms by (auto simp: plus_chain toggle_all_mem count_list_distinct)

lemma count_list_as_card:
  "distinct xs \<Longrightarrow> count_list (map g xs) x = card {y \<in> set xs. g y = x}"
proof (induction xs)
  case Nil
  then show ?case by simp
next
  case (Cons y ys)
  have fin: "finite {z \<in> set ys. g z = x}" by simp
  have "{z \<in> set (y # ys). g z = x}
          = (if g y = x then insert y {z \<in> set ys. g z = x} else {z \<in> set ys. g z = x})"
    by auto
  moreover have "y \<notin> {z \<in> set ys. g z = x}" using Cons.prems by simp
  ultimately show ?case using Cons fin by simp
qed

lemma count_list_concat:
  "count_list (concat xss) x = sum_list (map (\<lambda>xs. count_list xs x) xss)"
  by (induction xss) simp_all

lemma mask_products_count:
  assumes dl: "distinct ls" and dr: "distinct rs"
  shows "count_list (mask_products ls rs) x
           = (\<Sum>L \<in> set ls. if (L AND ExprZero) \<noteq> 0 then 0
                else card {R \<in> set rs. (R AND ExprZero) = 0 \<and> NewMask L R = x})"
proof -
  have inner: "count_list (map (NewMask L) (filter (\<lambda>R. (R AND ExprZero) = 0) rs)) x
                 = card {R \<in> set rs. (R AND ExprZero) = 0 \<and> NewMask L R = x}" for L
  proof -
    have "distinct (filter (\<lambda>R. (R AND ExprZero) = 0) rs)" using dr by simp
    then have "count_list (map (NewMask L) (filter (\<lambda>R. (R AND ExprZero) = 0) rs)) x
                 = card {R \<in> set (filter (\<lambda>R. (R AND ExprZero) = 0) rs). NewMask L R = x}"
      by (rule count_list_as_card)
    also have "{R \<in> set (filter (\<lambda>R. (R AND ExprZero) = 0) rs). NewMask L R = x}
                 = {R \<in> set rs. (R AND ExprZero) = 0 \<and> NewMask L R = x}"
      by auto
    finally show ?thesis .
  qed
  have "count_list (mask_products ls rs) x
          = sum_list (map (\<lambda>L. if (L AND ExprZero) \<noteq> 0 then 0
                else card {R \<in> set rs. (R AND ExprZero) = 0 \<and> NewMask L R = x}) ls)"
    unfolding mask_products_def count_list_concat map_map comp_def
    by (rule arg_cong [where f = sum_list]) (simp add: inner)
  also have "\<dots> = (\<Sum>L \<in> set ls. if (L AND ExprZero) \<noteq> 0 then 0
                else card {R \<in> set rs. (R AND ExprZero) = 0 \<and> NewMask L R = x})"
    using dl by (simp add: sum_list_distinct_conv_sum_set)
  finally show ?thesis .
qed

lemma times_set_order_independent:
  assumes "distinct (AddChain a)" "distinct (AddChain b)"
    and "distinct (AddChain a')" "distinct (AddChain b')"
    and "set (AddChain a) = set (AddChain a')" "set (AddChain b) = set (AddChain b')"
  shows "set (AddChain (op_times a b)) = set (AddChain (op_times a' b'))"
proof -
  have "count_list (mask_products (AddChain a) (AddChain b)) x
          = count_list (mask_products (AddChain a') (AddChain b')) x" for x
    by (simp only: mask_products_count [OF assms(1,2)] mask_products_count [OF assms(3,4)]
        assms(5,6))
  then show ?thesis by (auto simp: times_mem)
qed

lemma plus_set_order_independent:
  assumes "distinct (AddChain b)" "distinct (AddChain b')"
    and "set (AddChain a) = set (AddChain a')" "set (AddChain b) = set (AddChain b')"
  shows "set (AddChain (op_plus a b)) = set (AddChain (op_plus a' b'))"
  using assms by (simp add: plus_set)

text \<open>Every mask of an expression that fits a table of at most 62 leaves is the zero
  sentinel or canonical.\<close>

lemma expr_ok_canonical:
  assumes "expr_ok ir lv v e" "length lv \<le> 62" "m \<in> set (AddChain e)"
  shows "m = ExprZero \<or> canonical_mask m"
proof -
  have "leaf_mask_below (length lv) m" using assms(1,3) by (simp add: expr_ok_def)
  then show ?thesis
    using assms(2)
    by (auto simp: leaf_mask_below_def canonical_mask_def take_bit_self_iff
        and_ExprZero_iff and_ExprAllOne_iff bit_ExprAllOne)
qed

text \<open>
  The dense set keeps two keys for itself, \<open>~0\<close> and \<open>~0 - 1\<close>, which must never be
  inserted. A mask that fits a leaf table of at most 62 entries is neither.
\<close>

lemma mask_not_reserved_key:
  assumes "leaf_mask_below n m" "n \<le> 62"
  shows "m \<noteq> - 1" and "m \<noteq> - 2"
proof -
  have b1: "bit (- 1 :: 64 word) 1" "bit (- 2 :: 64 word) 1" by (simp_all add: bit_simps)
  have b2: "bit (- 1 :: 64 word) 63" "bit (- 2 :: 64 word) 63" by (simp_all add: bit_simps)
  have "\<not> (bit m 1 \<and> bit m 63)"
    using assms
    by (auto simp: leaf_mask_below_def take_bit_self_iff bit_ExprZero bit_ExprAllOne)
  then show "m \<noteq> - 1" and "m \<noteq> - 2" using b1 b2 by auto
qed

end
